theory Spec2Isabelle
  imports Main
begin

section \<open>Board state (class Board)\<close>

text \<open>
  The Python class \<^verbatim>\<open>Board\<close> holds \<^verbatim>\<open>grid\<close>, a list of three row lists of
  one-character strings, and the constant \<^verbatim>\<open>size\<close>.  The empty cell is the string
  \<^verbatim>\<open>' '\<close>.  Rows are built by separate list comprehensions, so no two rows are the same
  object and a store into one row never shows in another: a nested HOL list is adequate.
\<close>

datatype py_error = IndexError | TypeError

record board =
  grid :: "string list list"
  board_size :: nat

definition init_board :: board where
  "init_board = \<lparr>grid = replicate 3 (replicate 3 '' ''), board_size = 3\<rparr>"

text \<open>The shape every \<^verbatim>\<open>Board\<close> object has: \<^verbatim>\<open>__init__\<close> and \<^verbatim>\<open>reset\<close> build it and no
  method changes it.\<close>

definition is_grid :: "board \<Rightarrow> bool" where
  "is_grid b \<longleftrightarrow> length (grid b) = 3 \<and> list_all (\<lambda>row. length row = 3) (grid b)"

text \<open>The cell alphabet of the game: empty, X and O.\<close>

definition valid_cells :: "board \<Rightarrow> bool" where
  "valid_cells b \<longleftrightarrow> list_all (\<lambda>cell. cell = '' '' \<or> cell = ''X'' \<or> cell = ''O'') (concat (grid b))"

text \<open>Python's \<^verbatim>\<open>xs[i]\<close>: a negative index counts from the end, an index outside the list
  raises \<^verbatim>\<open>IndexError\<close>.\<close>

definition py_index :: "'a list \<Rightarrow> int \<Rightarrow> py_error + 'a" where
  "py_index xs i =
     (if 0 \<le> i \<and> i < int (length xs) then Inr (xs ! nat i)
      else if i < 0 \<and> - int (length xs) \<le> i then Inr (xs ! nat (int (length xs) + i))
      else Inl IndexError)"

text \<open>\<^verbatim>\<open>board.grid[i][j]\<close> and \<^verbatim>\<open>board.grid[i][j] = v\<close> at indices that are in range.\<close>

definition cell :: "board \<Rightarrow> nat \<Rightarrow> nat \<Rightarrow> string" where
  "cell b i j = grid b ! i ! j"

definition set_cell :: "board \<Rightarrow> nat \<Rightarrow> nat \<Rightarrow> string \<Rightarrow> board" where
  "set_cell b i j v = b\<lparr>grid := (grid b)[i := (grid b ! i)[j := v]]\<rparr>"

text \<open>\<^verbatim>\<open>is_valid_move\<close>: the conjunction short-circuits, so the grid is read only once both
  coordinates have passed the range test.\<close>

definition is_valid_move :: "board \<Rightarrow> int \<Rightarrow> int \<Rightarrow> py_error + bool" where
  "is_valid_move b row col =
     (if 0 \<le> row \<and> row < 3 \<and> 0 \<le> col \<and> col < 3 then
        (case py_index (grid b) row of
           Inl e \<Rightarrow> Inl e
         | Inr r \<Rightarrow> (case py_index r col of
                       Inl e \<Rightarrow> Inl e
                     | Inr c \<Rightarrow> Inr (c = '' '')))
      else Inr False)"

text \<open>\<^verbatim>\<open>make_move\<close> returns the updated board together with the Boolean result.  The store
  happens only after \<^verbatim>\<open>is_valid_move\<close> has read the same cell, so it cannot raise.\<close>

definition make_move :: "board \<Rightarrow> int \<Rightarrow> int \<Rightarrow> string \<Rightarrow> py_error + (board \<times> bool)" where
  "make_move b row col symbol =
     (case is_valid_move b row col of
        Inl e \<Rightarrow> Inl e
      | Inr ok \<Rightarrow> (if ok then Inr (set_cell b (nat row) (nat col) symbol, True)
                   else Inr (b, False)))"

definition is_full :: "board \<Rightarrow> bool" where
  "is_full b = list_all (\<lambda>c. c \<noteq> '' '') (concat (grid b))"

definition reset :: "board \<Rightarrow> board" where
  "reset b = b\<lparr>grid := replicate 3 (replicate 3 '' '')\<rparr>"

section \<open>Win detection (class GameLogic)\<close>

text \<open>The chained comparison \<^verbatim>\<open>a == b == c != ' '\<close>.\<close>

definition three :: "string \<Rightarrow> string \<Rightarrow> string \<Rightarrow> bool" where
  "three a b c \<longleftrightarrow> a = b \<and> b = c \<and> c \<noteq> '' ''"

text \<open>\<^verbatim>\<open>check_winner\<close>: rows in order, then columns 0, 1, 2, then the main diagonal, then
  the anti-diagonal; the first complete line decides.\<close>

definition check_winner :: "board \<Rightarrow> string option" where
  "check_winner b =
     (let g = grid b in
      case find (\<lambda>row. three (row ! 0) (row ! 1) (row ! 2)) g of
        Some row \<Rightarrow> Some (row ! 0)
      | None \<Rightarrow>
          (case find (\<lambda>col. three (g ! 0 ! col) (g ! 1 ! col) (g ! 2 ! col)) [0..<3] of
             Some col \<Rightarrow> Some (g ! 0 ! col)
           | None \<Rightarrow>
               if three (g ! 0 ! 0) (g ! 1 ! 1) (g ! 2 ! 2) then Some (g ! 0 ! 0)
               else if three (g ! 0 ! 2) (g ! 1 ! 1) (g ! 2 ! 0) then Some (g ! 0 ! 2)
               else None))"

text \<open>Python truthiness of an \<^verbatim>\<open>Optional[str]\<close>: \<^verbatim>\<open>None\<close> and the empty string are false.\<close>

fun truthy :: "string option \<Rightarrow> bool" where
  "truthy None = False"
| "truthy (Some s) = (s \<noteq> [])"

text \<open>\<^verbatim>\<open>is_game_over\<close> returns the pair \<^verbatim>\<open>(is_over, winner_or_draw)\<close>.\<close>

definition is_game_over :: "board \<Rightarrow> bool \<times> string option" where
  "is_game_over b =
     (let winner = check_winner b in
      if truthy winner then (True, winner)
      else if is_full b then (True, Some ''Draw'')
      else (False, None))"

section \<open>Scores\<close>

text \<open>The search starts its running optimum at \<^verbatim>\<open>float('-inf')\<close> or \<^verbatim>\<open>float('inf')\<close> and
  otherwise handles Python integers; comparisons between the two are numeric.\<close>

datatype score = NegInf | Fin int | PosInf

instantiation score :: linorder
begin

fun less_eq_score :: "score \<Rightarrow> score \<Rightarrow> bool" where
  "less_eq_score NegInf _ = True"
| "less_eq_score _ PosInf = True"
| "less_eq_score (Fin x) (Fin y) = (x \<le> y)"
| "less_eq_score _ _ = False"

definition less_score :: "score \<Rightarrow> score \<Rightarrow> bool" where
  "less_score a b \<longleftrightarrow> \<not> b \<le> (a::score)"

instance
proof
  fix x y z :: score
  show "(x < y) = (x \<le> y \<and> \<not> y \<le> x)"
    by (cases x; cases y) (auto simp: less_score_def)
  show "x \<le> x"
    by (cases x) auto
  show "x \<le> y \<Longrightarrow> y \<le> z \<Longrightarrow> x \<le> z"
    by (cases x; cases y; cases z) auto
  show "x \<le> y \<Longrightarrow> y \<le> x \<Longrightarrow> x = y"
    by (cases x; cases y) auto
  show "x \<le> y \<or> y \<le> x"
    by (cases x; cases y) auto
qed

end

section \<open>Optimal move search (class AIPlayer)\<close>

text \<open>The pair of loops \<^verbatim>\<open>for i in range(3): for j in range(3)\<close> visits the nine
  coordinates in row-major order.\<close>

definition cells :: "(nat \<times> nat) list" where
  "cells = [(i, j). i \<leftarrow> [0..<3], j \<leftarrow> [0..<3]]"

text \<open>
  The search mutates the one shared board and restores it, so the model threads the board
  through every call and returns it with the score.  The recursion of \<^verbatim>\<open>_minimax\<close> is
  bounded by a fuel argument: \<open>None\<close> means that the fuel ran out before the call returned.

  \<open>scan\<close> is the loop of either branch of \<^verbatim>\<open>_minimax\<close>: \<open>mark\<close> is the symbol the branch
  places, \<open>pick\<close> is \<^verbatim>\<open>max\<close> or \<^verbatim>\<open>min\<close>, \<open>rec\<close> is the recursive call.
\<close>

fun scan :: "(board \<Rightarrow> (board \<times> score) option) \<Rightarrow> string \<Rightarrow> (score \<Rightarrow> score \<Rightarrow> score)
    \<Rightarrow> (nat \<times> nat) list \<Rightarrow> board \<Rightarrow> score \<Rightarrow> (board \<times> score) option" where
  "scan rec mark pick [] b best = Some (b, best)"
| "scan rec mark pick ((i, j) # cs) b best =
    (if cell b i j = '' '' then
       (case rec (set_cell b i j mark) of
          None \<Rightarrow> None
        | Some (b', s) \<Rightarrow> scan rec mark pick cs (set_cell b' i j '' '') (pick best s))
     else scan rec mark pick cs b best)"

text \<open>The local \<^verbatim>\<open>opponent = 'O' if self.symbol == 'X' else 'X'\<close>.\<close>

definition opponent :: "string \<Rightarrow> string" where
  "opponent symbol = (if symbol = ''X'' then ''O'' else ''X'')"

fun minimax :: "nat \<Rightarrow> string \<Rightarrow> board \<Rightarrow> int \<Rightarrow> bool \<Rightarrow> (board \<times> score) option" where
  "minimax 0 symbol b depth is_max = None"
| "minimax (Suc fuel) symbol b depth is_max =
    (let winner = check_winner b in
     if winner = Some symbol then Some (b, Fin (10 - depth))
     else if truthy winner then Some (b, Fin (depth - 10))
     else if is_full b then Some (b, Fin 0)
     else if is_max then
       scan (\<lambda>b'. minimax fuel symbol b' (depth + 1) False) symbol max cells b NegInf
     else
       scan (\<lambda>b'. minimax fuel symbol b' (depth + 1) True) (opponent symbol) min cells b PosInf)"

text \<open>\<open>pick_move\<close> is the loop of \<^verbatim>\<open>get_move\<close>, with its two running variables
  \<^verbatim>\<open>best_score\<close> and \<^verbatim>\<open>best_move\<close>; the result \<open>None\<close> for the move is Python's \<^verbatim>\<open>None\<close>.\<close>

fun pick_move :: "(board \<Rightarrow> (board \<times> score) option) \<Rightarrow> string \<Rightarrow> (nat \<times> nat) list \<Rightarrow> board
    \<Rightarrow> score \<Rightarrow> (nat \<times> nat) option \<Rightarrow> (board \<times> (nat \<times> nat) option) option" where
  "pick_move rec symbol [] b best_score best_move = Some (b, best_move)"
| "pick_move rec symbol ((i, j) # cs) b best_score best_move =
    (if cell b i j = '' '' then
       (case rec (set_cell b i j symbol) of
          None \<Rightarrow> None
        | Some (b', s) \<Rightarrow>
            (let b'' = set_cell b' i j '' '' in
             if best_score < s then pick_move rec symbol cs b'' s (Some (i, j))
             else pick_move rec symbol cs b'' best_score best_move))
     else pick_move rec symbol cs b best_score best_move)"

definition get_move :: "nat \<Rightarrow> string \<Rightarrow> board \<Rightarrow> (board \<times> (nat \<times> nat) option) option" where
  "get_move fuel symbol b =
     pick_move (\<lambda>b'. minimax fuel symbol b' 0 False) symbol cells b NegInf None"

text \<open>The empty cells in scan order, and the score the search gives to one candidate cell.\<close>

definition empties :: "board \<Rightarrow> (nat \<times> nat) list" where
  "empties b = filter (\<lambda>(i, j). cell b i j = '' '') cells"

definition move_score :: "nat \<Rightarrow> string \<Rightarrow> board \<Rightarrow> nat \<times> nat \<Rightarrow> score option" where
  "move_score fuel symbol b p =
     map_option snd (minimax fuel symbol (set_cell b (fst p) (snd p) symbol) 0 False)"

section \<open>Example boards\<close>

definition row_x_board :: board where
  "row_x_board = \<lparr>grid = [[''X'', ''X'', ''X''], ['' '', '' '', '' ''], ['' '', '' '', '' '']],
     board_size = 3\<rparr>"

definition drawn_board :: board where
  "drawn_board = \<lparr>grid = [[''X'', ''O'', ''X''], [''O'', ''X'', ''O''], [''O'', ''X'', ''O'']],
     board_size = 3\<rparr>"

definition two_rows_board :: board where
  "two_rows_board = \<lparr>grid = [[''X'', ''X'', '' ''], [''O'', ''O'', '' ''], ['' '', '' '', '' '']],
     board_size = 3\<rparr>"

section \<open>The selection rule of the move loop, as a function of the scores\<close>

text \<open>What the loop of \<^verbatim>\<open>get_move\<close> computes once the score \<open>f p\<close> of each candidate cell is
  known: a strictly greater score replaces the running best move.\<close>

fun first_best :: "(nat \<times> nat \<Rightarrow> score) \<Rightarrow> (nat \<times> nat) list \<Rightarrow> score \<Rightarrow> (nat \<times> nat) option
    \<Rightarrow> (nat \<times> nat) option" where
  "first_best f [] best_score best_move = best_move"
| "first_best f (p # ps) best_score best_move =
    (if best_score < f p then first_best f ps (f p) (Some p)
     else first_best f ps best_score best_move)"

section \<open>The eight winning lines\<close>

text \<open>The lines that \<^verbatim>\<open>check_winner\<close> inspects, in its order, and the placements that fill the
  last free cell of a line whose other two cells hold the symbol.\<close>

definition lines :: "(nat \<times> nat) list list" where
  "lines = [[(0, 0), (0, 1), (0, 2)], [(1, 0), (1, 1), (1, 2)], [(2, 0), (2, 1), (2, 2)],
            [(0, 0), (1, 0), (2, 0)], [(0, 1), (1, 1), (2, 1)], [(0, 2), (1, 2), (2, 2)],
            [(0, 0), (1, 1), (2, 2)], [(0, 2), (1, 1), (2, 0)]]"

definition completes_line :: "string \<Rightarrow> board \<Rightarrow> nat \<times> nat \<Rightarrow> bool" where
  "completes_line symbol b p \<longleftrightarrow>
     cell b (fst p) (snd p) = '' '' \<and>
     (\<exists>l\<in>set lines. p \<in> set l \<and> (\<forall>q\<in>set l. q \<noteq> p \<longrightarrow> cell b (fst q) (snd q) = symbol))"

text \<open>The symbol a branch of \<^verbatim>\<open>_minimax\<close> places: the searching symbol in the maximising
  branch, the opponent's in the other.\<close>

definition placed :: "string \<Rightarrow> bool \<Rightarrow> string" where
  "placed symbol is_max = (if is_max then symbol else opponent symbol)"

section \<open>Bounds on the value of a position\<close>

text \<open>
  Two executable tests that decide, without computing the score, that the score
  \<^verbatim>\<open>_minimax\<close> returns is at most, or at least, a given integer.  They follow the case
  analysis of \<^verbatim>\<open>_minimax\<close>; where the search takes a maximum, an upper bound must hold for
  every empty cell and a lower bound for one of them, and dually for a minimum.  Both stop
  at the first cell that settles the question.
\<close>

fun all_cells :: "(nat \<times> nat \<Rightarrow> bool) \<Rightarrow> (nat \<times> nat) list \<Rightarrow> bool" where
  "all_cells P [] = True"
| "all_cells P (p # ps) = (if P p then all_cells P ps else False)"

fun some_cell :: "(nat \<times> nat \<Rightarrow> bool) \<Rightarrow> (nat \<times> nat) list \<Rightarrow> bool" where
  "some_cell P [] = False"
| "some_cell P (p # ps) = (if P p then True else some_cell P ps)"

fun at_most :: "nat \<Rightarrow> string \<Rightarrow> board \<Rightarrow> int \<Rightarrow> bool \<Rightarrow> int \<Rightarrow> bool" where
  "at_most 0 symbol b depth is_max k = False"
| "at_most (Suc n) symbol b depth is_max k =
    (let winner = check_winner b in
     if winner = Some symbol then 10 - depth \<le> k
     else if truthy winner then depth - 10 \<le> k
     else if is_full b then 0 \<le> k
     else if is_max then
       all_cells (\<lambda>p. at_most n symbol (set_cell b (fst p) (snd p) symbol) (depth + 1) False k)
         (empties b)
     else
       some_cell (\<lambda>p. at_most n symbol (set_cell b (fst p) (snd p) (opponent symbol)) (depth + 1) True k)
         (empties b))"

fun at_least :: "nat \<Rightarrow> string \<Rightarrow> board \<Rightarrow> int \<Rightarrow> bool \<Rightarrow> int \<Rightarrow> bool" where
  "at_least 0 symbol b depth is_max k = False"
| "at_least (Suc n) symbol b depth is_max k =
    (let winner = check_winner b in
     if winner = Some symbol then k \<le> 10 - depth
     else if truthy winner then k \<le> depth - 10
     else if is_full b then k \<le> 0
     else if is_max then
       some_cell (\<lambda>p. at_least n symbol (set_cell b (fst p) (snd p) symbol) (depth + 1) False k)
         (empties b)
     else
       all_cells (\<lambda>p. at_least n symbol (set_cell b (fst p) (snd p) (opponent symbol)) (depth + 1) True k)
         (empties b))"

section \<open>A game between two AI players (class GameController)\<close>

text \<open>
  \<^verbatim>\<open>play_turn\<close> asks the current player for a move and places it; here the player is an
  \<^verbatim>\<open>AIPlayer\<close>, so the move comes from \<^verbatim>\<open>get_move\<close>.  Unpacking a move that is \<^verbatim>\<open>None\<close>
  raises \<^verbatim>\<open>TypeError\<close>.  The result is what \<^verbatim>\<open>make_move\<close> returns.
\<close>

definition play_turn :: "nat \<Rightarrow> string \<Rightarrow> board \<Rightarrow> (py_error + (board \<times> bool)) option" where
  "play_turn fuel symbol b =
     (case get_move fuel symbol b of
        None \<Rightarrow> None
      | Some (b1, None) \<Rightarrow> Some (Inl TypeError)
      | Some (b1, Some (row, col)) \<Rightarrow> Some (make_move b1 (int row) (int col) symbol))"

text \<open>
  The \<^verbatim>\<open>while True\<close> loop of \<^verbatim>\<open>play_game\<close>, for two \<^verbatim>\<open>AIPlayer\<close> objects with the symbols
  \<open>current\<close> and \<open>other\<close>.  A successful turn is followed by \<^verbatim>\<open>is_game_over\<close>: when the game
  is over the loop ends with the board and the result (\<^verbatim>\<open>'X'\<close>, \<^verbatim>\<open>'O'\<close> or \<^verbatim>\<open>'Draw'\<close>),
  otherwise the players are switched.  A turn that fails is repeated by the same player.
  The loop has no bound of its own, so the model counts turns; \<open>None\<close> means that the count
  (or the fuel of a search) ran out.
\<close>

fun play_loop :: "nat \<Rightarrow> nat \<Rightarrow> string \<Rightarrow> string \<Rightarrow> board
    \<Rightarrow> (py_error + (board \<times> string option)) option" where
  "play_loop 0 fuel current other b = None"
| "play_loop (Suc turns) fuel current other b =
    (case play_turn fuel current b of
       None \<Rightarrow> None
     | Some (Inl e) \<Rightarrow> Some (Inl e)
     | Some (Inr (b1, ok)) \<Rightarrow>
         if ok then
           (case is_game_over b1 of
              (True, result) \<Rightarrow> Some (Inr (b1, result))
            | (False, result) \<Rightarrow> play_loop turns fuel other current b1)
         else play_loop turns fuel current other b1)"

text \<open>\<^verbatim>\<open>play_game\<close>: reset the board, player 1 starts.\<close>

definition play_game :: "nat \<Rightarrow> nat \<Rightarrow> string \<Rightarrow> string \<Rightarrow> board
    \<Rightarrow> (py_error + (board \<times> string option)) option" where
  "play_game turns fuel symbol1 symbol2 b = play_loop turns fuel symbol1 symbol2 (reset b)"

text \<open>The nine boards of the game that the two searches play against each other.\<close>

definition game_1 :: board where
  "game_1 = \<lparr>grid = [[''X'', '' '', '' ''], ['' '', '' '', '' ''], ['' '', '' '', '' '']], board_size = 3\<rparr>"

definition game_2 :: board where
  "game_2 = \<lparr>grid = [[''X'', '' '', '' ''], ['' '', ''O'', '' ''], ['' '', '' '', '' '']], board_size = 3\<rparr>"

definition game_3 :: board where
  "game_3 = \<lparr>grid = [[''X'', ''X'', '' ''], ['' '', ''O'', '' ''], ['' '', '' '', '' '']], board_size = 3\<rparr>"

definition game_4 :: board where
  "game_4 = \<lparr>grid = [[''X'', ''X'', ''O''], ['' '', ''O'', '' ''], ['' '', '' '', '' '']], board_size = 3\<rparr>"

definition game_5 :: board where
  "game_5 = \<lparr>grid = [[''X'', ''X'', ''O''], ['' '', ''O'', '' ''], [''X'', '' '', '' '']], board_size = 3\<rparr>"

definition game_6 :: board where
  "game_6 = \<lparr>grid = [[''X'', ''X'', ''O''], [''O'', ''O'', '' ''], [''X'', '' '', '' '']], board_size = 3\<rparr>"

definition game_7 :: board where
  "game_7 = \<lparr>grid = [[''X'', ''X'', ''O''], [''O'', ''O'', ''X''], [''X'', '' '', '' '']], board_size = 3\<rparr>"

definition game_8 :: board where
  "game_8 = \<lparr>grid = [[''X'', ''X'', ''O''], [''O'', ''O'', ''X''], [''X'', ''O'', '' '']], board_size = 3\<rparr>"

definition game_9 :: board where
  "game_9 = \<lparr>grid = [[''X'', ''X'', ''O''], [''O'', ''O'', ''X''], [''X'', ''O'', ''X'']], board_size = 3\<rparr>"

section \<open>The shape of the board\<close>

lemma len3: "length xs = 3 \<Longrightarrow> \<exists>x y z. xs = [x, y, z]"
  by (auto simp: length_Suc_conv numeral_3_eq_3)

lemma grid_explicit:
  assumes "is_grid b"
  obtains a0 a1 a2 a3 a4 a5 a6 a7 a8 where "grid b = [[a0, a1, a2], [a3, a4, a5], [a6, a7, a8]]"
proof -
  from assms obtain r0 r1 r2 where g: "grid b = [r0, r1, r2]"
    unfolding is_grid_def using len3 by blast
  with assms have "length r0 = 3" "length r1 = 3" "length r2 = 3"
    by (simp_all add: is_grid_def)
  then obtain a0 a1 a2 a3 a4 a5 a6 a7 a8
    where "r0 = [a0, a1, a2]" "r1 = [a3, a4, a5]" "r2 = [a6, a7, a8]"
    using len3[of r0] len3[of r1] len3[of r2] by auto
  with g that show thesis by simp
qed

lemma is_grid_set_cell: "is_grid b \<Longrightarrow> is_grid (set_cell b i j v)"
  by (cases "i < 3") (auto simp: is_grid_def set_cell_def list_all_length nth_list_update)

lemma cell_set_cell:
  "is_grid b \<Longrightarrow> i < 3 \<Longrightarrow> j < 3 \<Longrightarrow>
   cell (set_cell b i j v) i' j' = (if i' = i \<and> j' = j then v else cell b i' j')"
  by (auto simp: is_grid_def set_cell_def cell_def list_all_length nth_list_update)

lemma is_grid_rows: "is_grid b \<Longrightarrow> i < 3 \<Longrightarrow> length (grid b ! i) = 3"
  by (simp add: is_grid_def list_all_length)

lemma is_valid_move_grid:
  assumes "is_grid b"
  shows "is_valid_move b row col =
     Inr (0 \<le> row \<and> row < 3 \<and> 0 \<le> col \<and> col < 3 \<and> cell b (nat row) (nat col) = '' '')"
proof (cases "0 \<le> row \<and> row < 3 \<and> 0 \<le> col \<and> col < 3")
  case True
  then have r: "nat row < 3" "nat col < 3" by auto
  from assms have l: "length (grid b) = 3" by (simp add: is_grid_def)
  from assms r have l': "length (grid b ! nat row) = 3" by (simp add: is_grid_rows)
  from True l l' show ?thesis
    by (simp add: is_valid_move_def py_index_def cell_def)
next
  case False
  then show ?thesis by (auto simp: is_valid_move_def)
qed

lemma is_grid_init: "is_grid init_board"
  by (simp add: is_grid_def init_board_def numeral_3_eq_3)

text \<open>
  Claim C7.  On a board of the 3x3 shape, \<^verbatim>\<open>is_valid_move(row, col)\<close> returns normally for
  every pair of integers, and its result is true exactly when both coordinates lie in
  \<open>[0,3)\<close> and the addressed cell is empty; for coordinates out of range the result is
  \<open>False\<close> and no \<^verbatim>\<open>IndexError\<close> is raised.  The method only reads the grid: it returns
  no board.
\<close>

theorem is_valid_move_iff:
  assumes "is_grid b"
  shows "is_valid_move b row col =
     Inr (0 \<le> row \<and> row < 3 \<and> 0 \<le> col \<and> col < 3 \<and> cell b (nat row) (nat col) = '' '')"
  using assms by (rule is_valid_move_grid)

theorem is_valid_move_iff_witness:
  "is_grid init_board \<and> is_valid_move init_board 1 2 = Inr True
   \<and> is_valid_move init_board 3 0 = Inr False \<and> is_valid_move init_board (- 1) 5 = Inr False"
  using is_valid_move_iff[OF is_grid_init, of 1 2] is_valid_move_iff[OF is_grid_init, of 3 0]
    is_valid_move_iff[OF is_grid_init, of "- 1" 5] is_grid_init
  by (simp add: cell_def init_board_def numeral_3_eq_3)

section \<open>Placing a symbol\<close>

lemma make_move_grid:
  assumes "is_grid b"
  shows "make_move b row col symbol =
     (if is_valid_move b row col = Inr True
      then Inr (set_cell b (nat row) (nat col) symbol, True) else Inr (b, False))"
  by (simp add: make_move_def is_valid_move_grid[OF assms])

lemma valid_in_range:
  assumes "is_grid b" "is_valid_move b row col = Inr True"
  shows "nat row < 3 \<and> nat col < 3 \<and> cell b (nat row) (nat col) = '' ''"
  using assms(2) unfolding is_valid_move_grid[OF assms(1)] by auto

lemma cell_init: "i < 3 \<Longrightarrow> j < 3 \<Longrightarrow> cell init_board i j = '' ''"
  by (simp add: cell_def init_board_def)

lemma board_size_set_cell: "board_size (set_cell b i j v) = board_size b"
  by (simp add: set_cell_def)

lemma set_cell_same: "cell b i j = '' '' \<Longrightarrow> set_cell b i j '' '' = b"
  unfolding cell_def set_cell_def
  by (metis list_update_id board.surjective board.update_convs(1))

text \<open>
  Claim C8.  On a board of the 3x3 shape \<^verbatim>\<open>make_move\<close> never raises.  When
  \<^verbatim>\<open>is_valid_move\<close> holds it returns \<open>True\<close> and the new board differs from the old one in
  the addressed cell only, which now holds the symbol; otherwise it returns \<open>False\<close> and
  the board itself.  After \<^verbatim>\<open>make_move(1,1,'X')\<close> on the empty board, \<^verbatim>\<open>make_move(1,1,'O')\<close>
  returns \<open>False\<close> and the cell still holds X.
\<close>

theorem make_move_spec:
  assumes "is_grid b"
  shows "(is_valid_move b row col = Inr True \<longrightarrow>
            make_move b row col symbol = Inr (set_cell b (nat row) (nat col) symbol, True)
            \<and> is_grid (set_cell b (nat row) (nat col) symbol)
            \<and> board_size (set_cell b (nat row) (nat col) symbol) = board_size b
            \<and> (\<forall>i j. cell (set_cell b (nat row) (nat col) symbol) i j =
                  (if i = nat row \<and> j = nat col then symbol else cell b i j)))
       \<and> (is_valid_move b row col \<noteq> Inr True \<longrightarrow> make_move b row col symbol = Inr (b, False))
       \<and> make_move init_board 1 1 ''X'' = Inr (set_cell init_board 1 1 ''X'', True)
       \<and> make_move (set_cell init_board 1 1 ''X'') 1 1 ''O''
            = Inr (set_cell init_board 1 1 ''X'', False)
       \<and> cell (set_cell init_board 1 1 ''X'') 1 1 = ''X''"
proof -
  have g1: "is_grid (set_cell init_board 1 1 ''X'')"
    using is_grid_init by (rule is_grid_set_cell)
  have c1: "cell (set_cell init_board 1 1 ''X'') 1 1 = ''X''"
    by (simp add: cell_set_cell[OF is_grid_init])
  have "is_valid_move init_board 1 1 = Inr True"
    by (simp add: is_valid_move_grid[OF is_grid_init] cell_init)
  then have e1: "make_move init_board 1 1 ''X'' = Inr (set_cell init_board 1 1 ''X'', True)"
    by (simp add: make_move_grid[OF is_grid_init])
  have "is_valid_move (set_cell init_board 1 1 ''X'') 1 1 = Inr False"
    using is_valid_move_grid[OF g1, of 1 1] c1 by simp
  then have e2: "make_move (set_cell init_board 1 1 ''X'') 1 1 ''O''
            = Inr (set_cell init_board 1 1 ''X'', False)"
    using make_move_grid[OF g1, of 1 1 "''O''"] by simp
  have "\<forall>i j. cell (set_cell b (nat row) (nat col) symbol) i j =
                  (if i = nat row \<and> j = nat col then symbol else cell b i j)"
    if "is_valid_move b row col = Inr True"
    using valid_in_range[OF assms that] by (simp add: cell_set_cell[OF assms])
  then show ?thesis
    using e1 e2 c1 by (simp add: make_move_grid[OF assms] is_grid_set_cell[OF assms] board_size_set_cell)
qed

theorem make_move_spec_witness:
  "is_grid init_board \<and> is_valid_move init_board 0 2 = Inr True
   \<and> make_move init_board 0 2 ''O'' = Inr (set_cell init_board 0 2 ''O'', True)
   \<and> cell (set_cell init_board 0 2 ''O'') 0 2 = ''O''
   \<and> cell (set_cell init_board 0 2 ''O'') 2 0 = '' ''
   \<and> is_valid_move init_board 0 3 \<noteq> Inr True
   \<and> make_move init_board 0 3 ''O'' = Inr (init_board, False)"
proof -
  have v: "is_valid_move init_board 0 2 = Inr True"
    by (simp add: is_valid_move_grid[OF is_grid_init] cell_init)
  have n: "is_valid_move init_board 0 3 \<noteq> Inr True"
    by (simp add: is_valid_move_grid[OF is_grid_init])
  have c: "cell init_board 2 0 = '' ''"
    by (simp add: cell_init)
  show ?thesis
    using make_move_spec[OF is_grid_init, of 0 2 "''O''"] make_move_spec[OF is_grid_init, of 0 3 "''O''"]
      v n c is_grid_init
    by simp
qed

text \<open>
  Claim C10.  \<^verbatim>\<open>make_move\<close> does not inspect the symbol: at every in-range empty cell of a 3x3
  board it returns \<open>True\<close> for every string and stores that string.  Storing the
  empty-cell string \<^verbatim>\<open>' '\<close> returns \<open>True\<close> and gives back a board equal to the one before.
\<close>

theorem make_move_any_symbol:
  assumes "is_grid b" "0 \<le> row" "row < 3" "0 \<le> col" "col < 3"
    and "cell b (nat row) (nat col) = '' ''"
  shows "make_move b row col s = Inr (set_cell b (nat row) (nat col) s, True)
       \<and> cell (set_cell b (nat row) (nat col) s) (nat row) (nat col) = s
       \<and> make_move b row col '' '' = Inr (b, True)"
proof -
  have v: "is_valid_move b row col = Inr True"
    using assms by (simp add: is_valid_move_grid)
  have r: "nat row < 3" "nat col < 3" using assms by auto
  show ?thesis
    using v r assms(6)
    by (simp add: make_move_grid[OF assms(1)] cell_set_cell[OF assms(1)] set_cell_same)
qed

theorem make_move_any_symbol_witness:
  "is_grid init_board \<and> cell init_board (nat 2) (nat 1) = '' ''
   \<and> make_move init_board 2 1 ''Z'' = Inr (set_cell init_board (nat 2) (nat 1) ''Z'', True)
   \<and> cell (set_cell init_board (nat 2) (nat 1) ''Z'') (nat 2) (nat 1) = ''Z''
   \<and> make_move init_board 2 1 '' '' = Inr (init_board, True)"
proof -
  have c: "cell init_board (nat 2) (nat 1) = '' ''"
    by (simp add: cell_init)
  show ?thesis
    using make_move_any_symbol[OF is_grid_init _ _ _ _ c, of "''Z''"] is_grid_init c
    by simp
qed

section \<open>Winner and outcome\<close>

lemma check_winner_explicit:
  "grid b = [[a0, a1, a2], [a3, a4, a5], [a6, a7, a8]] \<Longrightarrow>
   check_winner b =
     (if three a0 a1 a2 then Some a0 else if three a3 a4 a5 then Some a3
      else if three a6 a7 a8 then Some a6 else if three a0 a3 a6 then Some a0
      else if three a1 a4 a7 then Some a1 else if three a2 a5 a8 then Some a2
      else if three a0 a4 a8 then Some a0 else if three a2 a4 a6 then Some a2 else None)"
  by (simp add: check_winner_def Let_def upt_rec)

lemma check_winner_cell:
  assumes "is_grid b" "check_winner b = Some w"
  shows "w \<in> set (concat (grid b)) \<and> w \<noteq> '' ''"
proof -
  from assms(1) obtain a0 a1 a2 a3 a4 a5 a6 a7 a8
    where g: "grid b = [[a0, a1, a2], [a3, a4, a5], [a6, a7, a8]]"
    by (rule grid_explicit)
  from assms(2) show ?thesis
    unfolding check_winner_explicit[OF g] g
    by (simp split: if_splits) (auto simp: three_def)
qed

lemma check_winner_valid:
  assumes "is_grid b" "valid_cells b" "check_winner b = Some w"
  shows "w = ''X'' \<or> w = ''O''"
proof -
  from check_winner_cell[OF assms(1,3)] have "w \<in> set (concat (grid b))" "w \<noteq> '' ''"
    by simp_all
  with assms(2) show ?thesis
    unfolding valid_cells_def list_all_iff by blast
qed

lemma check_winner_row_x: "check_winner row_x_board = Some ''X''"
  by (simp add: check_winner_def row_x_board_def three_def)

lemma check_winner_drawn: "check_winner drawn_board = None"
  by (simp add: check_winner_def drawn_board_def three_def upt_rec)

lemma is_full_drawn: "is_full drawn_board"
  by (simp add: is_full_def drawn_board_def)

lemma is_grid_drawn: "is_grid drawn_board" and valid_cells_drawn: "valid_cells drawn_board"
  by (simp_all add: is_grid_def valid_cells_def drawn_board_def)

lemma is_grid_row_x: "is_grid row_x_board" and valid_cells_row_x: "valid_cells row_x_board"
  by (simp_all add: is_grid_def valid_cells_def row_x_board_def)

lemma valid_cells_init: "valid_cells init_board"
  by (simp add: valid_cells_def init_board_def numeral_3_eq_3)

lemma check_winner_init: "check_winner init_board = None"
  by (simp add: check_winner_def init_board_def three_def upt_rec numeral_3_eq_3)

lemma not_full_init: "\<not> is_full init_board"
  by (simp add: is_full_def init_board_def numeral_3_eq_3)

text \<open>
  Claim C9.  \<^verbatim>\<open>is_game_over\<close> plays the part of \<open>outcome()\<close>: the pair \<open>(True, 'X')\<close> is XWins,
  \<open>(True, 'O')\<close> is OWins, \<open>(True, 'Draw')\<close> is Draw and \<open>(False, None)\<close> is Ongoing.  On a 3x3
  board whose cells are empty, X or O it returns XWins when \<^verbatim>\<open>check_winner\<close> yields X, OWins
  when it yields O, Draw when it yields \<open>None\<close> and the board is full, and Ongoing in every
  other case.  \<^verbatim>\<open>check_winner\<close> yields X on the board with X in the whole top row, and
  \<open>None\<close> on the full board XOX/OXO/OXO, whose outcome is Draw.
\<close>

theorem is_game_over_outcome:
  assumes "is_grid b" "valid_cells b"
  shows "(check_winner b = Some ''X'' \<longrightarrow> is_game_over b = (True, Some ''X''))
       \<and> (check_winner b = Some ''O'' \<longrightarrow> is_game_over b = (True, Some ''O''))
       \<and> (check_winner b = None \<and> is_full b \<longrightarrow> is_game_over b = (True, Some ''Draw''))
       \<and> (check_winner b \<noteq> Some ''X'' \<and> check_winner b \<noteq> Some ''O''
            \<and> \<not> (check_winner b = None \<and> is_full b) \<longrightarrow> is_game_over b = (False, None))
       \<and> check_winner row_x_board = Some ''X''
       \<and> check_winner drawn_board = None
       \<and> is_game_over drawn_board = (True, Some ''Draw'')"
proof -
  have "check_winner b = None \<or> check_winner b = Some ''X'' \<or> check_winner b = Some ''O''"
    using check_winner_valid[OF assms] by (cases "check_winner b") auto
  then have "check_winner b \<noteq> Some ''X'' \<and> check_winner b \<noteq> Some ''O''
            \<and> \<not> (check_winner b = None \<and> is_full b) \<longrightarrow> is_game_over b = (False, None)"
    by (auto simp: is_game_over_def)
  moreover have "is_game_over drawn_board = (True, Some ''Draw'')"
    by (simp add: is_game_over_def check_winner_drawn is_full_drawn)
  ultimately show ?thesis
    by (simp add: is_game_over_def check_winner_row_x check_winner_drawn)
qed

theorem is_game_over_outcome_witness:
  "is_grid row_x_board \<and> valid_cells row_x_board \<and> check_winner row_x_board = Some ''X''
     \<and> is_game_over row_x_board = (True, Some ''X'')
   \<and> is_grid drawn_board \<and> valid_cells drawn_board \<and> check_winner drawn_board = None
     \<and> is_full drawn_board \<and> is_game_over drawn_board = (True, Some ''Draw'')
   \<and> is_grid init_board \<and> valid_cells init_board \<and> check_winner init_board = None
     \<and> \<not> is_full init_board \<and> is_game_over init_board = (False, None)"
  using is_game_over_outcome[OF is_grid_row_x valid_cells_row_x]
    is_game_over_outcome[OF is_grid_drawn valid_cells_drawn]
    is_game_over_outcome[OF is_grid_init valid_cells_init]
    is_grid_row_x valid_cells_row_x is_grid_drawn valid_cells_drawn is_grid_init valid_cells_init
    check_winner_row_x check_winner_drawn check_winner_init is_full_drawn not_full_init
  by simp

lemma opponent_differs: "opponent symbol \<noteq> symbol" and opponent_truthy: "truthy (Some (opponent symbol))"
  by (auto simp: opponent_def)

text \<open>
  Claim C5.  The three terminal tests of \<^verbatim>\<open>_minimax\<close> come first: whatever the depth, the
  flag and the remaining fuel (one unit is enough, so no recursive call is involved), the
  call returns \<open>10 - depth\<close> when \<^verbatim>\<open>check_winner\<close> yields the searching symbol,
  \<open>depth - 10\<close> when it yields the opponent's symbol, and \<open>0\<close> when it yields \<open>None\<close> and the
  board is full; the board comes back as it was.
\<close>

theorem minimax_terminal:
  "(check_winner b = Some symbol \<longrightarrow>
      minimax (Suc fuel) symbol b depth is_max = Some (b, Fin (10 - depth)))
   \<and> (check_winner b = Some (opponent symbol) \<longrightarrow>
      minimax (Suc fuel) symbol b depth is_max = Some (b, Fin (depth - 10)))
   \<and> (check_winner b = None \<and> is_full b \<longrightarrow>
      minimax (Suc fuel) symbol b depth is_max = Some (b, Fin 0))"
  using opponent_differs[of symbol] opponent_truthy[of symbol] by (auto simp: Let_def)

theorem minimax_terminal_witness:
  "check_winner row_x_board = Some ''X''
   \<and> minimax (Suc 0) ''X'' row_x_board 3 True = Some (row_x_board, Fin 7)
   \<and> check_winner row_x_board = Some (opponent ''O'')
   \<and> minimax (Suc 0) ''O'' row_x_board 3 False = Some (row_x_board, Fin (- 7))
   \<and> check_winner drawn_board = None \<and> is_full drawn_board
   \<and> minimax (Suc 0) ''X'' drawn_board 8 True = Some (drawn_board, Fin 0)"
proof -
  have o: "opponent ''O'' = ''X''" by (simp add: opponent_def)
  show ?thesis
    using minimax_terminal[of row_x_board "''X''" 0 3 True]
      minimax_terminal[of row_x_board "''O''" 0 3 False]
      minimax_terminal[of drawn_board "''X''" 0 8 True]
      check_winner_row_x check_winner_drawn is_full_drawn o
    by simp
qed

section \<open>Mutate and restore\<close>

lemma nested_update_restore:
  "g ! i ! j = v0 \<Longrightarrow> g[i := (g[i := (g ! i)[j := v]] ! i)[j := v0]] = g"
proof (cases "i < length g")
  case True
  assume "g ! i ! j = v0"
  then have "(g ! i)[j := v0] = g ! i"
    by (metis list_update_id)
  with True show ?thesis by simp
next
  case False
  then show ?thesis by (simp add: list_update_beyond)
qed

lemma restore_cell: "cell b i j = '' '' \<Longrightarrow> set_cell (set_cell b i j v) i j '' '' = b"
  unfolding cell_def set_cell_def by (simp add: nested_update_restore)

lemma scan_frame:
  assumes "\<And>b' r. rec b' = Some r \<Longrightarrow> fst r = b'"
  shows "scan rec mark pick cs b best = Some (b1, s) \<Longrightarrow> b1 = b"
proof (induction cs arbitrary: b best)
  case Nil
  then show ?case by simp
next
  case (Cons p cs)
  obtain i j where p: "p = (i, j)" by (cases p)
  show ?case
  proof (cases "cell b i j = '' ''")
    case True
    with Cons.prems p obtain b' s' where r: "rec (set_cell b i j mark) = Some (b', s')"
      and k: "scan rec mark pick cs (set_cell b' i j '' '') (pick best s') = Some (b1, s)"
      by (auto split: option.splits)
    from assms[OF r] have "b' = set_cell b i j mark" by simp
    with True have "set_cell b' i j '' '' = b" by (simp add: restore_cell)
    with Cons.IH k show ?thesis by simp
  next
    case False
    with Cons p show ?thesis by simp
  qed
qed

lemma minimax_frame: "minimax fuel symbol b depth is_max = Some (b1, s) \<Longrightarrow> b1 = b"
proof (induction fuel arbitrary: symbol b depth is_max b1 s)
  case 0
  then show ?case by simp
next
  case (Suc fuel)
  have fr: "\<And>sym d m b' r. minimax fuel sym b' d m = Some r \<Longrightarrow> fst r = b'"
    using Suc.IH by (metis prod.collapse)
  have sf: "\<And>sym m mark pick best.
      scan (\<lambda>b'. minimax fuel sym b' (depth + 1) m) mark pick cells b best = Some (b1, s)
      \<Longrightarrow> b1 = b"
    by (rule scan_frame[rotated]) (auto dest: fr)
  from Suc.prems show ?case
    by (auto simp: Let_def split: if_splits dest: sf)
qed

lemma cells_eq: "cells = [(0,0),(0,1),(0,2),(1,0),(1,1),(1,2),(2,0),(2,1),(2,2)]"
  by (simp add: cells_def upt_rec)

lemma cells_range: "(i, j) \<in> set cells \<longleftrightarrow> i < 3 \<and> j < 3"
  by (auto simp: cells_def image_iff)

lemma empties_set_cell:
  assumes "is_grid b" "i < 3" "j < 3" "v \<noteq> '' ''"
  shows "empties (set_cell b i j v) = filter (\<lambda>p. p \<noteq> (i, j)) (empties b)"
  unfolding empties_def filter_filter
  by (rule filter_cong) (auto simp: cell_set_cell[OF assms(1-3)] cells_range assms(4))

lemma distinct_cells: "distinct cells"
  by (simp add: cells_eq)

lemma length_empties_set_cell:
  assumes "is_grid b" "i < 3" "j < 3" "v \<noteq> '' ''" "cell b i j = '' ''"
  shows "length (empties (set_cell b i j v)) < length (empties b)"
proof -
  have m: "(i, j) \<in> set (empties b)" using assms by (simp add: empties_def cells_range)
  show ?thesis
    unfolding empties_set_cell[OF assms(1-4)]
    by (rule length_filter_less[OF m]) simp
qed

lemma is_full_empties: "is_grid b \<Longrightarrow> is_full b \<longleftrightarrow> empties b = []"
  by (erule grid_explicit) (auto simp: is_full_def empties_def cells_eq cell_def)

lemma length_empties_le: "length (empties b) \<le> 9"
proof -
  have "length (empties b) \<le> length cells" unfolding empties_def by (rule length_filter_le)
  then show ?thesis by (simp add: cells_eq)
qed

lemma scan_result:
  assumes "\<And>i j. (i, j) \<in> set cs \<Longrightarrow> cell b i j = '' '' \<Longrightarrow>
             rec (set_cell b i j mark) = Some (set_cell b i j mark, f (i, j))"
  shows "scan rec mark pick cs b best =
           Some (b, foldl pick best (map f (filter (\<lambda>(i, j). cell b i j = '' '') cs)))"
  using assms
proof (induction cs arbitrary: best)
  case Nil
  then show ?case by simp
next
  case (Cons p cs)
  obtain i j where p: "p = (i, j)" by (cases p)
  have IH: "\<And>best. scan rec mark pick cs b best =
           Some (b, foldl pick best (map f (filter (\<lambda>(i, j). cell b i j = '' '') cs)))"
    by (rule Cons.IH) (simp add: Cons.prems)
  show ?case
  proof (cases "cell b i j = '' ''")
    case True
    then have "rec (set_cell b i j mark) = Some (set_cell b i j mark, f (i, j))"
      using Cons.prems p by simp
    with True show ?thesis by (simp add: p restore_cell IH)
  next
    case False
    then show ?thesis by (simp add: p IH)
  qed
qed

lemma pick_move_result:
  assumes "\<And>i j. (i, j) \<in> set cs \<Longrightarrow> cell b i j = '' '' \<Longrightarrow>
             rec (set_cell b i j symbol) = Some (set_cell b i j symbol, f (i, j))"
  shows "pick_move rec symbol cs b best_score best_move =
           Some (b, first_best f (filter (\<lambda>(i, j). cell b i j = '' '') cs) best_score best_move)"
  using assms
proof (induction cs arbitrary: best_score best_move)
  case Nil
  then show ?case by simp
next
  case (Cons p cs)
  obtain i j where p: "p = (i, j)" by (cases p)
  have IH: "\<And>best_score best_move. pick_move rec symbol cs b best_score best_move =
           Some (b, first_best f (filter (\<lambda>(i, j). cell b i j = '' '') cs) best_score best_move)"
    by (rule Cons.IH) (simp add: Cons.prems)
  show ?case
  proof (cases "cell b i j = '' ''")
    case True
    then have "rec (set_cell b i j symbol) = Some (set_cell b i j symbol, f (i, j))"
      using Cons.prems p by simp
    with True show ?thesis by (simp add: p restore_cell IH)
  next
    case False
    then show ?thesis by (simp add: p IH)
  qed
qed

lemma first_best_keep:
  "\<forall>q\<in>set ps. \<not> best_score < f q \<Longrightarrow> first_best f ps best_score best_move = best_move"
  by (induction ps) auto

lemma first_best_split:
  "\<exists>q\<in>set ps. best_score < f q \<Longrightarrow>
   \<exists>xs p ys. ps = xs @ p # ys \<and> first_best f ps best_score best_move = Some p \<and>
     best_score < f p \<and> (\<forall>q\<in>set xs. f q < f p) \<and> (\<forall>q\<in>set ys. f q \<le> f p)"
proof (induction ps arbitrary: best_score best_move)
  case Nil
  then show ?case by simp
next
  case (Cons a ps)
  show ?case
  proof (cases "best_score < f a")
    case True
    show ?thesis
    proof (cases "\<exists>q\<in>set ps. f a < f q")
      case ex: True
      from Cons.IH[OF ex, of "Some a"] obtain xs p ys where
        h: "ps = xs @ p # ys" "first_best f ps (f a) (Some a) = Some p" "f a < f p"
           "\<forall>q\<in>set xs. f q < f p" "\<forall>q\<in>set ys. f q \<le> f p"
        by blast
      have "a # ps = (a # xs) @ p # ys" using h(1) by simp
      moreover have "first_best f (a # ps) best_score best_move = Some p"
        using True h(2) by simp
      moreover have "best_score < f p" using True h(3) by (rule less_trans)
      moreover have "\<forall>q\<in>set (a # xs). f q < f p" using h(3,4) by simp
      ultimately show ?thesis using h(5) by blast
    next
      case nex: False
      then have k: "first_best f ps (f a) (Some a) = Some a"
        by (intro first_best_keep) simp
      have "a # ps = [] @ a # ps" by simp
      moreover have "first_best f (a # ps) best_score best_move = Some a"
        using True k by simp
      moreover have "\<forall>q\<in>set ps. f q \<le> f a" using nex by (simp add: not_less)
      ultimately show ?thesis using True by (metis empty_iff list.set(1))
    qed
  next
    case False
    with Cons.prems have ex: "\<exists>q\<in>set ps. best_score < f q" by auto
    from Cons.IH[OF ex, of best_move] obtain xs p ys where
      h: "ps = xs @ p # ys" "first_best f ps best_score best_move = Some p" "best_score < f p"
         "\<forall>q\<in>set xs. f q < f p" "\<forall>q\<in>set ys. f q \<le> f p"
      by blast
    have "a # ps = (a # xs) @ p # ys" using h(1) by simp
    moreover have "first_best f (a # ps) best_score best_move = Some p"
      using False h(2) by simp
    moreover have "f a < f p" using False h(3) by (simp add: not_less)
    then have "\<forall>q\<in>set (a # xs). f q < f p" using h(4) by simp
    ultimately show ?thesis using h(3,5) by blast
  qed
qed

lemma foldl_max_mem: "foldl max a xs \<in> insert a (set xs)"
  by (induction xs arbitrary: a) (auto simp: max_def)

lemma foldl_min_mem: "foldl min a xs \<in> insert a (set xs)"
  by (induction xs arbitrary: a) (auto simp: min_def)

lemma foldl_max_ge: "x \<in> insert a (set xs) \<Longrightarrow> (x :: score) \<le> foldl max a xs"
proof (induction xs arbitrary: a x)
  case Nil
  then show ?case by simp
next
  case (Cons y xs)
  have "max a y \<le> foldl max (max a y) xs"
    by (rule Cons.IH) simp
  then have "a \<le> foldl max (max a y) xs" "y \<le> foldl max (max a y) xs"
    by (auto simp: max_def split: if_splits)
  moreover have "x \<in> set xs \<Longrightarrow> x \<le> foldl max (max a y) xs"
    by (rule Cons.IH) simp
  ultimately show ?case using Cons.prems by auto
qed

lemma foldl_min_le: "x \<in> insert a (set xs) \<Longrightarrow> foldl min a xs \<le> (x :: score)"
proof (induction xs arbitrary: a x)
  case Nil
  then show ?case by simp
next
  case (Cons y xs)
  have "foldl min (min a y) xs \<le> min a y"
    by (rule Cons.IH) simp
  then have "foldl min (min a y) xs \<le> a" "foldl min (min a y) xs \<le> y"
    by (auto simp: min_def split: if_splits)
  moreover have "x \<in> set xs \<Longrightarrow> foldl min (min a y) xs \<le> x"
    by (rule Cons.IH) simp
  ultimately show ?case using Cons.prems by auto
qed

section \<open>The value of a position\<close>

lemma foldl_max_Fin:
  "foldl max (Fin a) (map (\<lambda>p. Fin (g p)) xs) = Fin (Max (insert a (g ` set xs)))"
proof (induction xs arbitrary: a)
  case Nil
  then show ?case by simp
next
  case (Cons x xs)
  have "max (Fin a) (Fin (g x)) = Fin (max a (g x))" by (simp add: max_def)
  moreover have "Max (insert (max a (g x)) (g ` set xs)) = Max (insert a (insert (g x) (g ` set xs)))"
    by (cases "xs = []") (simp_all add: max.assoc)
  ultimately show ?case using Cons.IH by simp
qed

lemma foldl_min_Fin:
  "foldl min (Fin a) (map (\<lambda>p. Fin (g p)) xs) = Fin (Min (insert a (g ` set xs)))"
proof (induction xs arbitrary: a)
  case Nil
  then show ?case by simp
next
  case (Cons x xs)
  have "min (Fin a) (Fin (g x)) = Fin (min a (g x))" by (simp add: min_def)
  moreover have "Min (insert (min a (g x)) (g ` set xs)) = Min (insert a (insert (g x) (g ` set xs)))"
    by (cases "xs = []") (simp_all add: min.assoc)
  ultimately show ?case using Cons.IH by simp
qed

lemma foldl_max_NegInf:
  "xs \<noteq> [] \<Longrightarrow> foldl max NegInf (map (\<lambda>p. Fin (g p)) xs) = Fin (Max (g ` set xs))"
proof (cases xs)
  case Nil
  assume "xs \<noteq> []"
  with Nil show ?thesis by simp
next
  case (Cons x ys)
  have "max NegInf (Fin (g x)) = Fin (g x)" by (simp add: max_def)
  then show ?thesis by (simp add: Cons foldl_max_Fin)
qed

lemma foldl_min_PosInf:
  "xs \<noteq> [] \<Longrightarrow> foldl min PosInf (map (\<lambda>p. Fin (g p)) xs) = Fin (Min (g ` set xs))"
proof (cases xs)
  case Nil
  assume "xs \<noteq> []"
  with Nil show ?thesis by simp
next
  case (Cons x ys)
  have "min PosInf (Fin (g x)) = Fin (g x)" by (simp add: min_def)
  then show ?thesis by (simp add: Cons foldl_min_Fin)
qed

lemma scan_cells_result:
  assumes "\<And>p. p \<in> set (empties b) \<Longrightarrow>
             rec (set_cell b (fst p) (snd p) mark) = Some (set_cell b (fst p) (snd p) mark, Fin (g p))"
  shows "scan rec mark pick cells b best = Some (b, foldl pick best (map (\<lambda>p. Fin (g p)) (empties b)))"
proof -
  have "scan rec mark pick cells b best =
      Some (b, foldl pick best (map (\<lambda>p. Fin (g p)) (filter (\<lambda>(i, j). cell b i j = '' '') cells)))"
  proof (rule scan_result)
    fix i j assume "(i, j) \<in> set cells" "cell b i j = '' ''"
    then have "(i, j) \<in> set (empties b)" by (simp add: empties_def)
    from assms[OF this] show "rec (set_cell b i j mark) = Some (set_cell b i j mark, Fin (g (i, j)))"
      by simp
  qed
  then show ?thesis by (simp add: empties_def)
qed

lemma minimax_nonterminal:
  assumes "check_winner b \<noteq> Some symbol" "\<not> truthy (check_winner b)" "\<not> is_full b"
  shows "minimax (Suc fuel) symbol b depth is_max =
     scan (\<lambda>b'. minimax fuel symbol b' (depth + 1) (\<not> is_max)) (placed symbol is_max)
       (if is_max then max else min) cells b (if is_max then NegInf else PosInf)"
  using assms by (simp add: Let_def placed_def)

lemma node_step:
  assumes nt: "check_winner b \<noteq> Some symbol" "\<not> truthy (check_winner b)" "\<not> is_full b"
    and ne: "empties b \<noteq> []"
    and ch: "\<And>p. p \<in> set (empties b) \<Longrightarrow>
       minimax fuel symbol (set_cell b (fst p) (snd p) (placed symbol is_max)) (depth + 1) (\<not> is_max)
         = Some (set_cell b (fst p) (snd p) (placed symbol is_max), Fin (g p))"
  shows "minimax (Suc fuel) symbol b depth is_max =
     Some (b, Fin (if is_max then Max (g ` set (empties b)) else Min (g ` set (empties b))))"
proof -
  have "scan (\<lambda>b'. minimax fuel symbol b' (depth + 1) (\<not> is_max)) (placed symbol is_max)
          pick cells b best = Some (b, foldl pick best (map (\<lambda>p. Fin (g p)) (empties b)))"
    for pick best
    by (rule scan_cells_result) (rule ch)
  then show ?thesis
    unfolding minimax_nonterminal[OF nt]
    using ne by (simp add: foldl_max_NegInf foldl_min_PosInf)
qed

lemma placed_not_empty: "symbol \<noteq> '' '' \<Longrightarrow> placed symbol is_max \<noteq> '' ''"
  by (simp add: placed_def opponent_def)

lemma child_measure:
  assumes "is_grid b" "p \<in> set (empties b)" "mark \<noteq> '' ''"
  shows "is_grid (set_cell b (fst p) (snd p) mark)"
    and "length (empties (set_cell b (fst p) (snd p) mark)) < length (empties b)"
proof -
  show "is_grid (set_cell b (fst p) (snd p) mark)"
    using assms(1) by (rule is_grid_set_cell)
  from assms(2) have "(fst p, snd p) \<in> set cells" "cell b (fst p) (snd p) = '' ''"
    by (auto simp: empties_def)
  then have "fst p < 3" "snd p < 3" "cell b (fst p) (snd p) = '' ''"
    unfolding cells_range by simp_all
  with assms(1,3) show "length (empties (set_cell b (fst p) (snd p) mark)) < length (empties b)"
    by (simp add: length_empties_set_cell)
qed

lemma minimax_total:
  assumes "symbol \<noteq> '' ''"
  shows "is_grid b \<Longrightarrow> length (empties b) < fuel \<Longrightarrow>
         \<exists>v. minimax fuel symbol b depth is_max = Some (b, Fin v)"
proof (induction fuel arbitrary: b depth is_max)
  case 0
  then show ?case by simp
next
  case (Suc fuel)
  show ?case
  proof (cases "check_winner b = Some symbol")
    case True
    then show ?thesis by (simp add: Let_def)
  next
    case ns: False
    show ?thesis
    proof (cases "truthy (check_winner b)")
      case True
      with ns show ?thesis by (simp add: Let_def)
    next
      case nt: False
      show ?thesis
      proof (cases "is_full b")
        case True
        with ns nt show ?thesis by (simp add: Let_def)
      next
        case nf: False
        then have ne: "empties b \<noteq> []" using Suc.prems(1) by (simp add: is_full_empties)
        have "\<forall>p\<in>set (empties b). \<exists>v.
            minimax fuel symbol (set_cell b (fst p) (snd p) (placed symbol is_max)) (depth + 1) (\<not> is_max)
              = Some (set_cell b (fst p) (snd p) (placed symbol is_max), Fin v)"
        proof
          fix p assume p: "p \<in> set (empties b)"
          note cm = child_measure[OF Suc.prems(1) p placed_not_empty[OF assms, of is_max]]
          show "\<exists>v. minimax fuel symbol (set_cell b (fst p) (snd p) (placed symbol is_max))
                  (depth + 1) (\<not> is_max)
              = Some (set_cell b (fst p) (snd p) (placed symbol is_max), Fin v)"
            using cm(1)
          proof (rule Suc.IH)
            show "length (empties (set_cell b (fst p) (snd p) (placed symbol is_max))) < fuel"
              using cm(2) Suc.prems(2) by simp
          qed
        qed
        then obtain g where g: "\<forall>p\<in>set (empties b).
            minimax fuel symbol (set_cell b (fst p) (snd p) (placed symbol is_max)) (depth + 1) (\<not> is_max)
              = Some (set_cell b (fst p) (snd p) (placed symbol is_max), Fin (g p))"
          using bchoice[of "set (empties b)" "\<lambda>p v.
            minimax fuel symbol (set_cell b (fst p) (snd p) (placed symbol is_max)) (depth + 1) (\<not> is_max)
              = Some (set_cell b (fst p) (snd p) (placed symbol is_max), Fin v)"]
          by blast
        have "minimax (Suc fuel) symbol b depth is_max =
           Some (b, Fin (if is_max then Max (g ` set (empties b)) else Min (g ` set (empties b))))"
          using ns nt nf ne by (rule node_step) (use g in blast)
        then show ?thesis by blast
      qed
    qed
  qed
qed

lemma minimax_children:
  assumes "symbol \<noteq> '' ''" "is_grid b" "length (empties b) \<le> fuel"
  obtains g where "\<And>p. p \<in> set (empties b) \<Longrightarrow>
       minimax fuel symbol (set_cell b (fst p) (snd p) (placed symbol is_max)) depth' flag
         = Some (set_cell b (fst p) (snd p) (placed symbol is_max), Fin (g p))"
proof -
  have "\<forall>p\<in>set (empties b). \<exists>v.
      minimax fuel symbol (set_cell b (fst p) (snd p) (placed symbol is_max)) depth' flag
        = Some (set_cell b (fst p) (snd p) (placed symbol is_max), Fin v)"
  proof
    fix p assume p: "p \<in> set (empties b)"
    note cm = child_measure[OF assms(2) p placed_not_empty[OF assms(1), of is_max]]
    from cm(2) assms(3)
    have "length (empties (set_cell b (fst p) (snd p) (placed symbol is_max))) < fuel"
      by simp
    with assms(1) cm(1)
    show "\<exists>v. minimax fuel symbol (set_cell b (fst p) (snd p) (placed symbol is_max)) depth' flag
        = Some (set_cell b (fst p) (snd p) (placed symbol is_max), Fin v)"
      by (rule minimax_total)
  qed
  then obtain g where "\<forall>p\<in>set (empties b).
      minimax fuel symbol (set_cell b (fst p) (snd p) (placed symbol is_max)) depth' flag
        = Some (set_cell b (fst p) (snd p) (placed symbol is_max), Fin (g p))"
    using bchoice[of "set (empties b)" "\<lambda>p v.
      minimax fuel symbol (set_cell b (fst p) (snd p) (placed symbol is_max)) depth' flag
        = Some (set_cell b (fst p) (snd p) (placed symbol is_max), Fin v)"]
    by blast
  with that show thesis by blast
qed

lemma minimax_fuel_indep:
  assumes "symbol \<noteq> '' ''"
  shows "is_grid b \<Longrightarrow> length (empties b) < fuel \<Longrightarrow> length (empties b) < fuel' \<Longrightarrow>
         minimax fuel symbol b depth is_max = minimax fuel' symbol b depth is_max"
proof (induction fuel arbitrary: fuel' b depth is_max)
  case 0
  then show ?case by simp
next
  case (Suc fuel)
  from Suc.prems(3) obtain k where k: "fuel' = Suc k" by (cases fuel') auto
  show ?case
  proof (cases "check_winner b = Some symbol \<or> truthy (check_winner b) \<or> is_full b")
    case True
    then show ?thesis unfolding k by (auto simp: Let_def)
  next
    case False
    then have nt: "check_winner b \<noteq> Some symbol" "\<not> truthy (check_winner b)" "\<not> is_full b"
      by auto
    have ne: "empties b \<noteq> []" using nt(3) Suc.prems(1) by (simp add: is_full_empties)
    from Suc.prems(2) have le: "length (empties b) \<le> fuel" by simp
    obtain g where g: "\<And>p. p \<in> set (empties b) \<Longrightarrow>
       minimax fuel symbol (set_cell b (fst p) (snd p) (placed symbol is_max)) (depth + 1) (\<not> is_max)
         = Some (set_cell b (fst p) (snd p) (placed symbol is_max), Fin (g p))"
      using minimax_children[OF assms Suc.prems(1) le] by blast
    have g': "minimax k symbol (set_cell b (fst p) (snd p) (placed symbol is_max)) (depth + 1) (\<not> is_max)
         = Some (set_cell b (fst p) (snd p) (placed symbol is_max), Fin (g p))"
      if p: "p \<in> set (empties b)" for p
    proof -
      note cm = child_measure[OF Suc.prems(1) p placed_not_empty[OF assms, of is_max]]
      have "minimax fuel symbol (set_cell b (fst p) (snd p) (placed symbol is_max)) (depth + 1) (\<not> is_max)
        = minimax k symbol (set_cell b (fst p) (snd p) (placed symbol is_max)) (depth + 1) (\<not> is_max)"
        using cm(1)
      proof (rule Suc.IH)
        show "length (empties (set_cell b (fst p) (snd p) (placed symbol is_max))) < fuel"
          using cm(2) Suc.prems(2) by simp
        show "length (empties (set_cell b (fst p) (snd p) (placed symbol is_max))) < k"
          using cm(2) Suc.prems(3) k by simp
      qed
      with g[OF p] show ?thesis by simp
    qed
    have "minimax (Suc fuel) symbol b depth is_max =
       Some (b, Fin (if is_max then Max (g ` set (empties b)) else Min (g ` set (empties b))))"
      using nt ne g by (rule node_step)
    moreover have "minimax (Suc k) symbol b depth is_max =
       Some (b, Fin (if is_max then Max (g ` set (empties b)) else Min (g ` set (empties b))))"
      using nt ne g' by (rule node_step)
    ultimately show ?thesis unfolding k by simp
  qed
qed

lemma pick_move_frame:
  assumes "\<And>b' r. rec b' = Some r \<Longrightarrow> fst r = b'"
  shows "pick_move rec symbol cs b best_score best_move = Some (b1, mv) \<Longrightarrow> b1 = b"
proof (induction cs arbitrary: b best_score best_move)
  case Nil
  then show ?case by simp
next
  case (Cons p cs)
  obtain i j where p: "p = (i, j)" by (cases p)
  show ?case
  proof (cases "cell b i j = '' ''")
    case True
    with Cons.prems p obtain b' s' where r: "rec (set_cell b i j symbol) = Some (b', s')"
      by (auto split: option.splits)
    from assms[OF r] have "b' = set_cell b i j symbol" by simp
    with True have e: "set_cell b' i j '' '' = b" by (simp add: restore_cell)
    from Cons.prems True r e p have
      "pick_move rec symbol cs b (if best_score < s' then s' else best_score)
          (if best_score < s' then Some (i, j) else best_move) = Some (b1, mv)"
      by (simp split: if_splits)
    then show ?thesis by (rule Cons.IH)
  next
    case False
    with Cons p show ?thesis by simp
  qed
qed

lemma get_move_frame: "get_move fuel symbol b = Some (b1, mv) \<Longrightarrow> b1 = b"
  unfolding get_move_def
  by (rule pick_move_frame[rotated]) (auto dest: minimax_frame)

lemma placed_True: "placed symbol True = symbol"
  by (simp add: placed_def)

lemma get_move_result:
  assumes "symbol \<noteq> '' ''" "is_grid b" "length (empties b) \<le> fuel"
  shows "\<exists>f. (\<forall>p\<in>set (empties b).
       minimax fuel symbol (set_cell b (fst p) (snd p) symbol) 0 False
         = Some (set_cell b (fst p) (snd p) symbol, Fin (f p)))
    \<and> get_move fuel symbol b = Some (b, first_best (\<lambda>p. Fin (f p)) (empties b) NegInf None)"
proof -
  obtain f where f: "\<And>p. p \<in> set (empties b) \<Longrightarrow>
       minimax fuel symbol (set_cell b (fst p) (snd p) symbol) 0 False
         = Some (set_cell b (fst p) (snd p) symbol, Fin (f p))"
    using minimax_children[OF assms, of True 0 False] unfolding placed_True by blast
  have "pick_move (\<lambda>b'. minimax fuel symbol b' 0 False) symbol cells b NegInf None =
      Some (b, first_best (\<lambda>p. Fin (f p)) (filter (\<lambda>(i, j). cell b i j = '' '') cells) NegInf None)"
  proof (rule pick_move_result)
    fix i j assume "(i, j) \<in> set cells" "cell b i j = '' ''"
    then have "(i, j) \<in> set (empties b)" by (simp add: empties_def)
    from f[OF this] show "minimax fuel symbol (set_cell b i j symbol) 0 False
        = Some (set_cell b i j symbol, Fin (f (i, j)))" by simp
  qed
  then have "get_move fuel symbol b = Some (b, first_best (\<lambda>p. Fin (f p)) (empties b) NegInf None)"
    by (simp add: get_move_def empties_def)
  with f show ?thesis by blast
qed

section \<open>The move returned by the search\<close>

lemma empties_cells: "p \<in> set (empties b) \<Longrightarrow> fst p < 3 \<and> snd p < 3 \<and> cell b (fst p) (snd p) = '' ''"
proof -
  assume "p \<in> set (empties b)"
  then have "(fst p, snd p) \<in> set cells" "cell b (fst p) (snd p) = '' ''"
    by (auto simp: empties_def)
  then show ?thesis unfolding cells_range by simp
qed

lemma NegInf_less_Fin: "NegInf < Fin v"
  by (simp add: less_score_def)

lemma Fin_less: "Fin x < Fin y \<longleftrightarrow> x < y" and Fin_le: "Fin x \<le> Fin y \<longleftrightarrow> x \<le> y"
  by (auto simp: less_score_def)

lemma get_move_first_best:
  assumes "symbol \<noteq> '' ''" "is_grid b" "length (empties b) \<le> fuel" "\<not> is_full b"
  shows "\<exists>f xs p ys.
    (\<forall>q\<in>set (empties b). move_score fuel symbol b q = Some (Fin (f q)))
    \<and> get_move fuel symbol b = Some (b, Some p) \<and> empties b = xs @ p # ys
    \<and> (\<forall>q\<in>set xs. f q < f p) \<and> (\<forall>q\<in>set ys. f q \<le> f p)"
proof -
  obtain f where f: "\<And>p. p \<in> set (empties b) \<Longrightarrow>
       minimax fuel symbol (set_cell b (fst p) (snd p) symbol) 0 False
         = Some (set_cell b (fst p) (snd p) symbol, Fin (f p))"
    and gm: "get_move fuel symbol b = Some (b, first_best (\<lambda>p. Fin (f p)) (empties b) NegInf None)"
    using get_move_result[OF assms(1-3)] by blast
  from assms(2,4) have "empties b \<noteq> []" by (simp add: is_full_empties)
  then have "\<exists>q\<in>set (empties b). NegInf < Fin (f q)"
    by (cases "empties b") (auto simp: NegInf_less_Fin)
  from first_best_split[OF this, of None] obtain xs p ys where
    s: "empties b = xs @ p # ys"
       "first_best (\<lambda>p. Fin (f p)) (empties b) NegInf None = Some p"
       "\<forall>q\<in>set xs. Fin (f q) < Fin (f p)" "\<forall>q\<in>set ys. Fin (f q) \<le> Fin (f p)"
    by blast
  have "\<forall>q\<in>set (empties b). move_score fuel symbol b q = Some (Fin (f q))"
    using f by (simp add: move_score_def)
  moreover have "get_move fuel symbol b = Some (b, Some p)" using gm s(2) by simp
  ultimately show ?thesis using s(1,3,4) unfolding Fin_less Fin_le by blast
qed

lemma get_move_fuel_indep:
  assumes "symbol \<noteq> '' ''" "is_grid b" "length (empties b) \<le> fuel" "length (empties b) \<le> fuel'"
  shows "get_move fuel symbol b = get_move fuel' symbol b"
proof -
  obtain f where f: "\<And>p. p \<in> set (empties b) \<Longrightarrow>
       minimax fuel symbol (set_cell b (fst p) (snd p) symbol) 0 False
         = Some (set_cell b (fst p) (snd p) symbol, Fin (f p))"
    and gm: "get_move fuel symbol b = Some (b, first_best (\<lambda>p. Fin (f p)) (empties b) NegInf None)"
    using get_move_result[OF assms(1-3)] by blast
  have f': "minimax fuel' symbol (set_cell b (fst p) (snd p) symbol) 0 False
         = Some (set_cell b (fst p) (snd p) symbol, Fin (f p))" if p: "p \<in> set (empties b)" for p
  proof -
    note cm = child_measure[OF assms(2) p assms(1)]
    have "minimax fuel symbol (set_cell b (fst p) (snd p) symbol) 0 False
      = minimax fuel' symbol (set_cell b (fst p) (snd p) symbol) 0 False"
      using assms(1) cm(1)
    proof (rule minimax_fuel_indep)
      show "length (empties (set_cell b (fst p) (snd p) symbol)) < fuel"
        using cm(2) assms(3) by simp
      show "length (empties (set_cell b (fst p) (snd p) symbol)) < fuel'"
        using cm(2) assms(4) by simp
    qed
    with f[OF p] show ?thesis by simp
  qed
  have "pick_move (\<lambda>b'. minimax fuel' symbol b' 0 False) symbol cells b NegInf None =
      Some (b, first_best (\<lambda>p. Fin (f p)) (filter (\<lambda>(i, j). cell b i j = '' '') cells) NegInf None)"
  proof (rule pick_move_result)
    fix i j assume "(i, j) \<in> set cells" "cell b i j = '' ''"
    then have "(i, j) \<in> set (empties b)" by (simp add: empties_def)
    from f'[OF this] show "minimax fuel' symbol (set_cell b i j symbol) 0 False
        = Some (set_cell b i j symbol, Fin (f (i, j)))" by simp
  qed
  then show ?thesis using gm by (simp add: get_move_def empties_def)
qed

lemma fuel_enough: "9 \<le> fuel \<Longrightarrow> length (empties b) \<le> fuel"
  using length_empties_le[of b] by simp

lemma is_grid_two_rows: "is_grid two_rows_board"
  by (simp add: is_grid_def two_rows_board_def)

lemma get_move_two_rows: "get_move 10 ''X'' two_rows_board = Some (two_rows_board, Some (0, 2))"
  by code_simp

lemma minimax_two_rows: "minimax 10 ''X'' two_rows_board 0 True = Some (two_rows_board, Fin 9)"
  by code_simp

lemma get_move_total:
  assumes "is_grid b" "symbol \<noteq> '' ''" "9 \<le> fuel"
  shows "\<exists>mv. get_move fuel symbol b = Some (b, mv) \<and> (mv = None \<longleftrightarrow> is_full b)
           \<and> (\<forall>r c. mv = Some (r, c) \<longrightarrow> r < 3 \<and> c < 3 \<and> cell b r c = '' '')"
proof (cases "is_full b")
  case True
  then have e: "empties b = []" using assms(1) by (simp add: is_full_empties)
  obtain f where "get_move fuel symbol b = Some (b, first_best (\<lambda>p. Fin (f p)) (empties b) NegInf None)"
    using get_move_result[OF assms(2,1) fuel_enough[OF assms(3)]] by blast
  with e True show ?thesis by simp
next
  case False
  from get_move_first_best[OF assms(2,1) fuel_enough[OF assms(3)] False]
  obtain xs p ys where g: "get_move fuel symbol b = Some (b, Some p)" and s: "empties b = xs @ p # ys"
    by blast
  from s have "p \<in> set (empties b)" by simp
  from empties_cells[OF this] g False show ?thesis by auto
qed

text \<open>
  Claim C3.  Whatever board and symbol the search is started on, a call of \<^verbatim>\<open>_minimax\<close> or of
  \<^verbatim>\<open>get_move\<close> that returns hands back the board it was given: every placement made during
  the exploration has been undone.  On a 3x3 board, with a symbol other than the empty
  cell, both calls do return once the fuel covers the nine cells.
\<close>

theorem search_restores_board:
  "(\<forall>b1 s. minimax fuel symbol b depth is_max = Some (b1, s) \<longrightarrow> b1 = b)
   \<and> (\<forall>b1 mv. get_move fuel symbol b = Some (b1, mv) \<longrightarrow> b1 = b)
   \<and> (is_grid b \<and> symbol \<noteq> '' '' \<and> 10 \<le> fuel \<longrightarrow>
        (\<exists>v. minimax fuel symbol b depth is_max = Some (b, Fin v))
        \<and> (\<exists>mv. get_move fuel symbol b = Some (b, mv)))"
proof -
  have "\<exists>v. minimax fuel symbol b depth is_max = Some (b, Fin v)"
    if "is_grid b" "symbol \<noteq> '' ''" "10 \<le> fuel"
  proof -
    have "length (empties b) < fuel" using length_empties_le[of b] that(3) by simp
    with that(2,1) show ?thesis by (rule minimax_total)
  qed
  moreover have "\<exists>mv. get_move fuel symbol b = Some (b, mv)"
    if "is_grid b" "symbol \<noteq> '' ''" "10 \<le> fuel"
  proof -
    from that(3) have "9 \<le> fuel" by simp
    from get_move_total[OF that(1,2) this] show ?thesis by blast
  qed
  ultimately show ?thesis
    using minimax_frame get_move_frame by blast
qed

theorem search_restores_board_witness:
  "is_grid two_rows_board \<and> ''X'' \<noteq> '' '' \<and> (10::nat) \<le> 10
   \<and> minimax 10 ''X'' two_rows_board 0 True = Some (two_rows_board, Fin 9)
   \<and> get_move 10 ''X'' two_rows_board = Some (two_rows_board, Some (0, 2))"
  using search_restores_board[of 10 "''X''" two_rows_board 0 True]
    is_grid_two_rows minimax_two_rows get_move_two_rows
  by simp

lemma get_move_row_x: "get_move 10 ''O'' row_x_board = Some (row_x_board, Some (1, 0))"
  by code_simp

lemma get_move_drawn: "get_move 10 ''X'' drawn_board = Some (drawn_board, None)"
  by code_simp

lemma is_game_over_row_x: "is_game_over row_x_board = (True, Some ''X'')"
  by (simp add: is_game_over_def check_winner_row_x)

lemma not_full_two_rows: "\<not> is_full two_rows_board"
  by (simp add: is_full_def two_rows_board_def)

lemma empties_two_rows: "empties two_rows_board = [(0, 2), (1, 2), (2, 0), (2, 1), (2, 2)]"
  by (simp add: empties_def cells_eq cell_def two_rows_board_def)

text \<open>
  Claim C4.  On a 3x3 board with an empty cell \<^verbatim>\<open>get_move\<close> returns a move.  The nine cells
  are scanned row by row; the returned cell is empty, no empty cell before it in that order
  has a score as high as its own, and no empty cell after it has a higher one.  The board
  comes back unchanged, and the answer is the same for every amount of fuel that covers the
  nine cells, so that every invocation on the same board and symbol gives the same move.
  (The claim's further condition that the game is not over is not needed.)
\<close>

theorem get_move_first_maximal:
  assumes "is_grid b" "symbol \<noteq> '' ''" "9 \<le> fuel" "\<not> is_full b"
  shows "\<exists>f xs r c ys.
      get_move fuel symbol b = Some (b, Some (r, c))
      \<and> r < 3 \<and> c < 3 \<and> cell b r c = '' ''
      \<and> filter (\<lambda>(i, j). cell b i j = '' '')
           [(0, 0), (0, 1), (0, 2), (1, 0), (1, 1), (1, 2), (2, 0), (2, 1), (2, 2)]
         = xs @ (r, c) # ys
      \<and> (\<forall>q\<in>set (xs @ (r, c) # ys). move_score fuel symbol b q = Some (Fin (f q)))
      \<and> (\<forall>q\<in>set xs. f q < f (r, c)) \<and> (\<forall>q\<in>set ys. f q \<le> f (r, c))
      \<and> (\<forall>fuel'. 9 \<le> fuel' \<longrightarrow> get_move fuel' symbol b = Some (b, Some (r, c)))"
proof -
  from get_move_first_best[OF assms(2,1) fuel_enough[OF assms(3)] assms(4)]
  obtain f xs p ys where
    h: "\<forall>q\<in>set (empties b). move_score fuel symbol b q = Some (Fin (f q))"
       "get_move fuel symbol b = Some (b, Some p)" "empties b = xs @ p # ys"
       "\<forall>q\<in>set xs. f q < f p" "\<forall>q\<in>set ys. f q \<le> f p"
    by blast
  obtain r c where p: "p = (r, c)" by (cases p)
  from h(3) have "p \<in> set (empties b)" by simp
  from empties_cells[OF this] have rc: "r < 3" "c < 3" "cell b r c = '' ''"
    by (simp_all add: p)
  have e: "filter (\<lambda>(i, j). cell b i j = '' '')
           [(0, 0), (0, 1), (0, 2), (1, 0), (1, 1), (1, 2), (2, 0), (2, 1), (2, 2)]
         = xs @ (r, c) # ys"
    using h(3) by (simp add: empties_def cells_eq p)
  have "get_move fuel' symbol b = Some (b, Some (r, c))" if "9 \<le> fuel'" for fuel'
    using get_move_fuel_indep[OF assms(2,1) fuel_enough[OF assms(3)] fuel_enough[OF that]] h(2) p
    by simp
  with h rc e show ?thesis unfolding p by (metis (no_types, lifting))
qed

theorem get_move_first_maximal_witness:
  "is_grid two_rows_board \<and> ''X'' \<noteq> '' '' \<and> (9::nat) \<le> 10 \<and> \<not> is_full two_rows_board
   \<and> get_move 10 ''X'' two_rows_board = Some (two_rows_board, Some (0, 2))
   \<and> cell two_rows_board 0 2 = '' ''"
  using get_move_first_maximal[OF is_grid_two_rows _ _ not_full_two_rows, of "''X''" 10]
    is_grid_two_rows not_full_two_rows get_move_two_rows
  by auto

text \<open>
  Claim C6, as stated, fails on the code: \<^verbatim>\<open>get_move\<close> has no precondition check.  On the
  full board XOX/OXO/OXO it returns \<^verbatim>\<open>None\<close> as its move, and on the board that X has
  already won with the top row it returns the move (1,0) for O.
\<close>

theorem get_move_no_fail_fast:
  "is_full drawn_board \<and> get_move 10 ''X'' drawn_board = Some (drawn_board, None)
   \<and> is_game_over row_x_board = (True, Some ''X'')
   \<and> get_move 10 ''O'' row_x_board = Some (row_x_board, Some (1, 0))"
  by (simp add: is_full_drawn get_move_drawn is_game_over_row_x get_move_row_x)

text \<open>
  Claim C6, amended.  \<^verbatim>\<open>get_move\<close> does not test its precondition and never fails: on every
  3x3 board it returns, with the board unchanged.  The move returned is \<^verbatim>\<open>None\<close> exactly when
  the board has no empty cell; otherwise it is an in-range empty cell, also when the game
  is already won.
\<close>

theorem get_move_always_returns:
  assumes "is_grid b" "symbol \<noteq> '' ''" "9 \<le> fuel"
  shows "\<exists>mv. get_move fuel symbol b = Some (b, mv) \<and> (mv = None \<longleftrightarrow> is_full b)
           \<and> (\<forall>r c. mv = Some (r, c) \<longrightarrow> r < 3 \<and> c < 3 \<and> cell b r c = '' '')"
  using assms by (rule get_move_total)

theorem get_move_always_returns_witness:
  "is_grid drawn_board \<and> ''X'' \<noteq> '' '' \<and> (9::nat) \<le> 10
   \<and> get_move 10 ''X'' drawn_board = Some (drawn_board, None) \<and> is_full drawn_board
   \<and> is_grid row_x_board \<and> get_move 10 ''O'' row_x_board = Some (row_x_board, Some (1, 0))
   \<and> cell row_x_board 1 0 = '' ''"
  using get_move_always_returns[OF is_grid_drawn, of "''X''" 10]
    get_move_always_returns[OF is_grid_row_x, of "''O''" 10]
    is_grid_drawn is_grid_row_x get_move_drawn get_move_row_x is_full_drawn
  by auto

section \<open>Immediate wins\<close>

lemma minimax_upper:
  assumes "symbol \<noteq> '' ''"
  shows "is_grid b \<Longrightarrow> length (empties b) < fuel \<Longrightarrow>
         minimax fuel symbol b depth is_max = Some (b1, Fin v) \<Longrightarrow>
         v \<le> max (10 - depth) (depth + int (length (empties b)) - 10)"
proof (induction fuel arbitrary: b depth is_max b1 v)
  case 0
  then show ?case by simp
next
  case (Suc fuel)
  show ?case
  proof (cases "check_winner b = Some symbol \<or> truthy (check_winner b) \<or> is_full b")
    case True
    with Suc.prems(3) show ?thesis by (auto simp: Let_def split: if_splits)
  next
    case False
    then have nt: "check_winner b \<noteq> Some symbol" "\<not> truthy (check_winner b)" "\<not> is_full b"
      by auto
    have ne: "empties b \<noteq> []" using nt(3) Suc.prems(1) by (simp add: is_full_empties)
    from Suc.prems(2) have le: "length (empties b) \<le> fuel" by simp
    obtain g where g: "\<And>p. p \<in> set (empties b) \<Longrightarrow>
       minimax fuel symbol (set_cell b (fst p) (snd p) (placed symbol is_max)) (depth + 1) (\<not> is_max)
         = Some (set_cell b (fst p) (snd p) (placed symbol is_max), Fin (g p))"
      using minimax_children[OF assms Suc.prems(1) le] by blast
    have "minimax (Suc fuel) symbol b depth is_max =
        Some (b, Fin (if is_max then Max (g ` set (empties b)) else Min (g ` set (empties b))))"
      by (rule node_step[OF nt ne g])
    with Suc.prems(3) have "Some (b1, Fin v) =
        Some (b, Fin (if is_max then Max (g ` set (empties b)) else Min (g ` set (empties b))))"
      by (rule trans[OF sym])
    then have v: "v = (if is_max then Max (g ` set (empties b)) else Min (g ` set (empties b)))"
      by simp
    have bound: "g p \<le> max (10 - depth) (depth + int (length (empties b)) - 10)"
      if p: "p \<in> set (empties b)" for p
    proof -
      note cm = child_measure[OF Suc.prems(1) p placed_not_empty[OF assms, of is_max]]
      have "length (empties (set_cell b (fst p) (snd p) (placed symbol is_max))) < fuel"
        using cm(2) Suc.prems(2) by simp
      from Suc.IH[OF cm(1) this g[OF p]]
      have "g p \<le> max (10 - (depth + 1))
          (depth + 1 + int (length (empties (set_cell b (fst p) (snd p) (placed symbol is_max)))) - 10)" .
      with cm(2) show ?thesis by linarith
    qed
    show ?thesis
    proof (cases is_max)
      case True
      then have "v = Max (g ` set (empties b))" using v by simp
      then show ?thesis using bound ne by simp
    next
      case False
      then have "v = Min (g ` set (empties b))" using v by simp
      moreover obtain p where p: "p \<in> set (empties b)" using ne by (cases "empties b") auto
      ultimately have "v \<le> g p" by simp
      with bound[OF p] show ?thesis by linarith
    qed
  qed
qed

lemma score_of_win:
  "check_winner b = Some symbol \<Longrightarrow> 0 < fuel \<Longrightarrow>
   minimax fuel symbol b 0 False = Some (b, Fin 10)"
  by (cases fuel) (simp_all add: Let_def)

lemma score_of_other:
  assumes "symbol \<noteq> '' ''" "is_grid b" "length (empties b) < fuel" "length (empties b) \<le> 8"
    "check_winner b \<noteq> Some symbol" "minimax fuel symbol b 0 False = Some (b1, Fin v)"
  shows "v \<le> 9"
proof -
  from assms(3) obtain k where k: "fuel = Suc k" by (cases fuel) auto
  show ?thesis
  proof (cases "truthy (check_winner b) \<or> is_full b")
    case True
    with assms(5,6) show ?thesis unfolding k by (auto simp: Let_def split: if_splits)
  next
    case False
    then have nt: "check_winner b \<noteq> Some symbol" "\<not> truthy (check_winner b)" "\<not> is_full b"
      using assms(5) by auto
    have ne: "empties b \<noteq> []" using nt(3) assms(2) by (simp add: is_full_empties)
    from assms(3) k have le: "length (empties b) \<le> k" by simp
    obtain g where g: "\<And>p. p \<in> set (empties b) \<Longrightarrow>
       minimax k symbol (set_cell b (fst p) (snd p) (placed symbol False)) (0 + 1) (\<not> False)
         = Some (set_cell b (fst p) (snd p) (placed symbol False), Fin (g p))"
      using minimax_children[OF assms(1,2) le] by blast
    have "minimax (Suc k) symbol b 0 False =
        Some (b, Fin (if False then Max (g ` set (empties b)) else Min (g ` set (empties b))))"
      by (rule node_step[OF nt ne g])
    with assms(6)[unfolded k] have "Some (b1, Fin v) =
        Some (b, Fin (if False then Max (g ` set (empties b)) else Min (g ` set (empties b))))"
      by (rule trans[OF sym])
    then have v: "v = Min (g ` set (empties b))" by simp
    obtain p where p: "p \<in> set (empties b)" using ne by (cases "empties b") auto
    note cm = child_measure[OF assms(2) p placed_not_empty[OF assms(1), of False]]
    have "length (empties (set_cell b (fst p) (snd p) (placed symbol False))) < k"
      using cm(2) le by simp
    from minimax_upper[OF assms(1) cm(1) this g[OF p]]
    have "g p \<le> max (10 - (0 + 1))
        (0 + 1 + int (length (empties (set_cell b (fst p) (snd p) (placed symbol False)))) - 10)" .
    with cm(2) assms(4) have "g p \<le> 9" by linarith
    moreover have "v \<le> g p" using v p by simp
    ultimately show ?thesis by linarith
  qed
qed

lemma get_move_wins:
  assumes "is_grid b" "symbol \<noteq> '' ''" "9 \<le> fuel"
    and win: "\<exists>i j. i < 3 \<and> j < 3 \<and> cell b i j = '' ''
              \<and> check_winner (set_cell b i j symbol) = Some symbol"
  shows "\<exists>r c. get_move fuel symbol b = Some (b, Some (r, c)) \<and> r < 3 \<and> c < 3
           \<and> cell b r c = '' '' \<and> check_winner (set_cell b r c symbol) = Some symbol"
proof -
  from win obtain i j where ij: "i < 3" "j < 3" "cell b i j = '' ''"
    "check_winner (set_cell b i j symbol) = Some symbol" by blast
  then have m: "(i, j) \<in> set (empties b)" by (simp add: empties_def cells_range)
  then have nf: "\<not> is_full b" using assms(1) by (auto simp: is_full_empties)
  from get_move_first_best[OF assms(2,1) fuel_enough[OF assms(3)] nf]
  obtain f xs p ys where
    h: "\<forall>q\<in>set (empties b). move_score fuel symbol b q = Some (Fin (f q))"
       "get_move fuel symbol b = Some (b, Some p)" "empties b = xs @ p # ys"
       "\<forall>q\<in>set xs. f q < f p" "\<forall>q\<in>set ys. f q \<le> f p"
    by blast
  from h(3) have pm: "p \<in> set (empties b)" by simp
  have fuel0: "0 < fuel" using assms(3) by simp
  have "move_score fuel symbol b (i, j) = Some (Fin 10)"
    using score_of_win[OF ij(4) fuel0] by (simp add: move_score_def)
  with h(1) m have fij: "f (i, j) = 10" by auto
  have "f (i, j) \<le> f p"
    using m h(3,4,5) by (auto simp: less_imp_le)
  with fij have big: "10 \<le> f p" by simp
  note cm = child_measure[OF assms(1) pm assms(2)]
  have lt: "length (empties (set_cell b (fst p) (snd p) symbol)) < fuel"
    using cm(2) fuel_enough[OF assms(3), of b] by simp
  have l8: "length (empties (set_cell b (fst p) (snd p) symbol)) \<le> 8"
    using cm(2) length_empties_le[of b] by simp
  from h(1) pm have "move_score fuel symbol b p = Some (Fin (f p))" by blast
  then obtain b1 where r: "minimax fuel symbol (set_cell b (fst p) (snd p) symbol) 0 False
      = Some (b1, Fin (f p))"
    by (auto simp: move_score_def)
  have "check_winner (set_cell b (fst p) (snd p) symbol) = Some symbol"
  proof (rule ccontr)
    assume "check_winner (set_cell b (fst p) (snd p) symbol) \<noteq> Some symbol"
    from score_of_other[OF assms(2) cm(1) lt l8 this r] have "f p \<le> 9" .
    with big show False by simp
  qed
  moreover from empties_cells[OF pm]
  have "fst p < 3" "snd p < 3" "cell b (fst p) (snd p) = '' ''" by simp_all
  moreover have "get_move fuel symbol b = Some (b, Some (fst p, snd p))" using h(2) by simp
  ultimately show ?thesis by blast
qed

lemma get_move_two_rows_any_fuel:
  assumes "9 \<le> fuel"
  shows "get_move fuel ''X'' two_rows_board = Some (two_rows_board, Some (0, 2))"
proof -
  have "get_move fuel ''X'' two_rows_board = get_move 10 ''X'' two_rows_board"
    by (rule get_move_fuel_indep[OF _ is_grid_two_rows fuel_enough[OF assms] fuel_enough]) simp_all
  then show ?thesis by (simp add: get_move_two_rows)
qed

lemma lines_range: "l \<in> set lines \<Longrightarrow> q \<in> set l \<Longrightarrow> fst q < 3 \<and> snd q < 3"
  by (auto simp: lines_def)

lemma winner_exists:
  assumes "is_grid b" "l \<in> set lines" "w \<noteq> '' ''" "\<forall>q\<in>set l. cell b (fst q) (snd q) = w"
  shows "check_winner b \<noteq> None"
proof -
  from assms(1) obtain a0 a1 a2 a3 a4 a5 a6 a7 a8
    where g: "grid b = [[a0, a1, a2], [a3, a4, a5], [a6, a7, a8]]"
    by (rule grid_explicit)
  from assms(2) consider "l = [(0, 0), (0, 1), (0, 2)]" | "l = [(1, 0), (1, 1), (1, 2)]" | "l = [(2, 0), (2, 1), (2, 2)]" | "l = [(0, 0), (1, 0), (2, 0)]" | "l = [(0, 1), (1, 1), (2, 1)]" | "l = [(0, 2), (1, 2), (2, 2)]" | "l = [(0, 0), (1, 1), (2, 2)]" | "l = [(0, 2), (1, 1), (2, 0)]"
    unfolding lines_def by auto
  then have "three a0 a1 a2 \<or> three a3 a4 a5 \<or> three a6 a7 a8 \<or> three a0 a3 a6
      \<or> three a1 a4 a7 \<or> three a2 a5 a8 \<or> three a0 a4 a8 \<or> three a2 a4 a6"
  proof cases
    case 1
    with assms(3,4) have "three a0 a1 a2" by (simp add: three_def cell_def g)
    then show ?thesis by simp
  next
    case 2
    with assms(3,4) have "three a3 a4 a5" by (simp add: three_def cell_def g)
    then show ?thesis by simp
  next
    case 3
    with assms(3,4) have "three a6 a7 a8" by (simp add: three_def cell_def g)
    then show ?thesis by simp
  next
    case 4
    with assms(3,4) have "three a0 a3 a6" by (simp add: three_def cell_def g)
    then show ?thesis by simp
  next
    case 5
    with assms(3,4) have "three a1 a4 a7" by (simp add: three_def cell_def g)
    then show ?thesis by simp
  next
    case 6
    with assms(3,4) have "three a2 a5 a8" by (simp add: three_def cell_def g)
    then show ?thesis by simp
  next
    case 7
    with assms(3,4) have "three a0 a4 a8" by (simp add: three_def cell_def g)
    then show ?thesis by simp
  next
    case 8
    with assms(3,4) have "three a2 a4 a6" by (simp add: three_def cell_def g)
    then show ?thesis by simp
  qed
  then show ?thesis
    unfolding check_winner_explicit[OF g] by (simp split: if_splits) blast
qed

lemma winner_line:
  assumes "is_grid b" "check_winner b = Some w"
  shows "w \<noteq> '' '' \<and> (\<exists>l\<in>set lines. \<forall>q\<in>set l. cell b (fst q) (snd q) = w)"
proof -
  from assms(1) obtain a0 a1 a2 a3 a4 a5 a6 a7 a8
    where g: "grid b = [[a0, a1, a2], [a3, a4, a5], [a6, a7, a8]]"
    by (rule grid_explicit)
  from assms(2) consider "three a0 a1 a2" "w = a0" | "three a3 a4 a5" "w = a3" | "three a6 a7 a8" "w = a6" | "three a0 a3 a6" "w = a0" | "three a1 a4 a7" "w = a1" | "three a2 a5 a8" "w = a2" | "three a0 a4 a8" "w = a0" | "three a2 a4 a6" "w = a2"
    unfolding check_winner_explicit[OF g] by (auto split: if_splits)
  then show ?thesis
  proof cases
    case 1
    then have "w \<noteq> '' ''" and "\<forall>q\<in>set [(0, 0), (0, 1), (0, 2)]. cell b (fst q) (snd q) = w"
      by (simp_all add: three_def cell_def g)
    moreover have "[(0, 0), (0, 1), (0, 2)] \<in> set lines" by (simp add: lines_def)
    ultimately show ?thesis by blast
  next
    case 2
    then have "w \<noteq> '' ''" and "\<forall>q\<in>set [(1, 0), (1, 1), (1, 2)]. cell b (fst q) (snd q) = w"
      by (simp_all add: three_def cell_def g)
    moreover have "[(1, 0), (1, 1), (1, 2)] \<in> set lines" by (simp add: lines_def)
    ultimately show ?thesis by blast
  next
    case 3
    then have "w \<noteq> '' ''" and "\<forall>q\<in>set [(2, 0), (2, 1), (2, 2)]. cell b (fst q) (snd q) = w"
      by (simp_all add: three_def cell_def g)
    moreover have "[(2, 0), (2, 1), (2, 2)] \<in> set lines" by (simp add: lines_def)
    ultimately show ?thesis by blast
  next
    case 4
    then have "w \<noteq> '' ''" and "\<forall>q\<in>set [(0, 0), (1, 0), (2, 0)]. cell b (fst q) (snd q) = w"
      by (simp_all add: three_def cell_def g)
    moreover have "[(0, 0), (1, 0), (2, 0)] \<in> set lines" by (simp add: lines_def)
    ultimately show ?thesis by blast
  next
    case 5
    then have "w \<noteq> '' ''" and "\<forall>q\<in>set [(0, 1), (1, 1), (2, 1)]. cell b (fst q) (snd q) = w"
      by (simp_all add: three_def cell_def g)
    moreover have "[(0, 1), (1, 1), (2, 1)] \<in> set lines" by (simp add: lines_def)
    ultimately show ?thesis by blast
  next
    case 6
    then have "w \<noteq> '' ''" and "\<forall>q\<in>set [(0, 2), (1, 2), (2, 2)]. cell b (fst q) (snd q) = w"
      by (simp_all add: three_def cell_def g)
    moreover have "[(0, 2), (1, 2), (2, 2)] \<in> set lines" by (simp add: lines_def)
    ultimately show ?thesis by blast
  next
    case 7
    then have "w \<noteq> '' ''" and "\<forall>q\<in>set [(0, 0), (1, 1), (2, 2)]. cell b (fst q) (snd q) = w"
      by (simp_all add: three_def cell_def g)
    moreover have "[(0, 0), (1, 1), (2, 2)] \<in> set lines" by (simp add: lines_def)
    ultimately show ?thesis by blast
  next
    case 8
    then have "w \<noteq> '' ''" and "\<forall>q\<in>set [(0, 2), (1, 1), (2, 0)]. cell b (fst q) (snd q) = w"
      by (simp_all add: three_def cell_def g)
    moreover have "[(0, 2), (1, 1), (2, 0)] \<in> set lines" by (simp add: lines_def)
    ultimately show ?thesis by blast
  qed
qed

lemma completes_line_wins:
  assumes "is_grid b" "check_winner b = None" "symbol \<noteq> '' ''" "completes_line symbol b p"
  shows "check_winner (set_cell b (fst p) (snd p) symbol) = Some symbol"
proof -
  let ?b = "set_cell b (fst p) (snd p) symbol"
  from assms(4) obtain l where l: "l \<in> set lines" "p \<in> set l"
    "\<forall>q\<in>set l. q \<noteq> p \<longrightarrow> cell b (fst q) (snd q) = symbol"
    unfolding completes_line_def by blast
  from lines_range[OF l(1,2)] have r: "fst p < 3" "snd p < 3" by simp_all
  have c: "cell ?b (fst q) (snd q) = (if q = p then symbol else cell b (fst q) (snd q))" for q
    by (simp add: cell_set_cell[OF assms(1) r] prod_eq_iff)
  have g: "is_grid ?b" using assms(1) by (rule is_grid_set_cell)
  have "\<forall>q\<in>set l. cell ?b (fst q) (snd q) = symbol" using l(3) by (simp add: c)
  from winner_exists[OF g l(1) assms(3) this] obtain w where w: "check_winner ?b = Some w"
    by auto
  from winner_line[OF g w] obtain l' where l': "l' \<in> set lines"
    "\<forall>q\<in>set l'. cell ?b (fst q) (snd q) = w" and ne: "w \<noteq> '' ''"
    by blast
  have "p \<in> set l'"
  proof (rule ccontr)
    assume "p \<notin> set l'"
    with l'(2) have "\<forall>q\<in>set l'. cell b (fst q) (snd q) = w" by (auto simp: c)
    from winner_exists[OF assms(1) l'(1) ne this] assms(2) show False by simp
  qed
  with l'(2) have "w = symbol" by (auto simp: c)
  with w show ?thesis by simp
qed

lemma not_over_no_winner:
  assumes "is_grid b" "valid_cells b" "is_game_over b = (False, None)"
  shows "check_winner b = None"
proof (cases "check_winner b")
  case None
  then show ?thesis .
next
  case (Some w)
  with check_winner_valid[OF assms(1,2) Some] assms(3) show ?thesis
    by (auto simp: is_game_over_def)
qed

text \<open>
  Claim C1.  Take a 3x3 board with cells empty, X or O on which the game is not over, and
  a symbol to move.  If some empty cell is the last free cell of a line whose other two
  cells hold that symbol, then \<^verbatim>\<open>get_move\<close> returns an empty cell after whose placement
  \<^verbatim>\<open>check_winner\<close> yields the symbol: a win on this turn.  (A winning placement scores 10,
  any other placement at most 9.)  On the board with X at (0,0), (0,1) and O at (1,0),
  (1,1) the move returned for X is (0,2).
\<close>

theorem get_move_takes_win:
  assumes "is_grid b" "valid_cells b" "is_game_over b = (False, None)"
    and "symbol \<noteq> '' ''" "9 \<le> fuel" "completes_line symbol b p"
  shows "(\<exists>r c. get_move fuel symbol b = Some (b, Some (r, c)) \<and> r < 3 \<and> c < 3
           \<and> cell b r c = '' '' \<and> check_winner (set_cell b r c symbol) = Some symbol)
       \<and> get_move fuel ''X'' two_rows_board = Some (two_rows_board, Some (0, 2))"
proof -
  have n: "check_winner b = None" using assms(1-3) by (rule not_over_no_winner)
  from assms(6) obtain l where "l \<in> set lines" "p \<in> set l"
    and e: "cell b (fst p) (snd p) = '' ''"
    unfolding completes_line_def by blast
  then have r: "fst p < 3" "snd p < 3" using lines_range by blast+
  have "check_winner (set_cell b (fst p) (snd p) symbol) = Some symbol"
    using assms(1) n assms(4,6) by (rule completes_line_wins)
  with r e have "\<exists>i j. i < 3 \<and> j < 3 \<and> cell b i j = '' ''
              \<and> check_winner (set_cell b i j symbol) = Some symbol"
    by blast
  from get_move_wins[OF assms(1,4,5) this] get_move_two_rows_any_fuel[OF assms(5)]
  show ?thesis by simp
qed

theorem get_move_takes_win_witness:
  "is_grid two_rows_board \<and> valid_cells two_rows_board
   \<and> is_game_over two_rows_board = (False, None) \<and> ''X'' \<noteq> '' '' \<and> (9::nat) \<le> 10
   \<and> completes_line ''X'' two_rows_board (0, 2)
   \<and> get_move 10 ''X'' two_rows_board = Some (two_rows_board, Some (0, 2))
   \<and> check_winner (set_cell two_rows_board 0 2 ''X'') = Some ''X''"
proof -
  have v: "valid_cells two_rows_board"
    by (simp add: valid_cells_def two_rows_board_def)
  have g: "is_game_over two_rows_board = (False, None)"
    by (simp add: is_game_over_def check_winner_def is_full_def two_rows_board_def three_def upt_rec)
  have c: "completes_line ''X'' two_rows_board (0, 2)"
    unfolding completes_line_def
    by (intro conjI bexI[of _ "[(0, 0), (0, 1), (0, 2)]"])
      (simp_all add: cell_def two_rows_board_def lines_def)
  show ?thesis
    using get_move_takes_win[OF is_grid_two_rows v g _ _ c, of 10] is_grid_two_rows v g c
    by auto
qed

section \<open>Soundness of the bounds\<close>

lemma all_cells_iff: "all_cells P xs \<longleftrightarrow> (\<forall>p\<in>set xs. P p)"
  by (induction xs) auto

lemma some_cell_iff: "some_cell P xs \<longleftrightarrow> (\<exists>p\<in>set xs. P p)"
  by (induction xs) auto

lemma placed_False: "placed symbol False = opponent symbol"
  by (simp add: placed_def)

lemma at_most_sound:
  assumes "symbol \<noteq> '' ''"
  shows "at_most n symbol b depth is_max k \<Longrightarrow> is_grid b \<Longrightarrow> length (empties b) < fuel \<Longrightarrow>
         minimax fuel symbol b depth is_max = Some (b1, Fin v) \<Longrightarrow> v \<le> k"
proof (induction n arbitrary: fuel b depth is_max b1 v)
  case 0
  then show ?case by simp
next
  case (Suc n)
  from Suc.prems(3) obtain m where m: "fuel = Suc m" by (cases fuel) auto
  show ?case
  proof (cases "check_winner b = Some symbol \<or> truthy (check_winner b) \<or> is_full b")
    case True
    with Suc.prems(1,4) show ?thesis unfolding m by (auto simp: Let_def split: if_splits)
  next
    case False
    then have nt: "check_winner b \<noteq> Some symbol" "\<not> truthy (check_winner b)" "\<not> is_full b"
      by auto
    have ne: "empties b \<noteq> []" using nt(3) Suc.prems(2) by (simp add: is_full_empties)
    from Suc.prems(3) m have le: "length (empties b) \<le> m" by simp
    obtain g where g: "\<And>p. p \<in> set (empties b) \<Longrightarrow>
       minimax m symbol (set_cell b (fst p) (snd p) (placed symbol is_max)) (depth + 1) (\<not> is_max)
         = Some (set_cell b (fst p) (snd p) (placed symbol is_max), Fin (g p))"
      using minimax_children[OF assms Suc.prems(2) le] by blast
    have "minimax (Suc m) symbol b depth is_max =
        Some (b, Fin (if is_max then Max (g ` set (empties b)) else Min (g ` set (empties b))))"
      by (rule node_step[OF nt ne g])
    with Suc.prems(4)[unfolded m] have "Some (b1, Fin v) =
        Some (b, Fin (if is_max then Max (g ` set (empties b)) else Min (g ` set (empties b))))"
      by (rule trans[OF sym])
    then have v: "v = (if is_max then Max (g ` set (empties b)) else Min (g ` set (empties b)))"
      by simp
    have step: "g p \<le> k"
      if p: "p \<in> set (empties b)"
        and a: "at_most n symbol (set_cell b (fst p) (snd p) (placed symbol is_max)) (depth + 1)
                  (\<not> is_max) k" for p
    proof -
      note cm = child_measure[OF Suc.prems(2) p placed_not_empty[OF assms, of is_max]]
      have "length (empties (set_cell b (fst p) (snd p) (placed symbol is_max))) < m"
        using cm(2) le by simp
      from Suc.IH[OF a cm(1) this g[OF p]] show ?thesis .
    qed
    show ?thesis
    proof (cases is_max)
      case True
      from Suc.prems(1) nt True have
        "\<forall>p\<in>set (empties b). at_most n symbol (set_cell b (fst p) (snd p) symbol) (depth + 1) False k"
        by (simp add: Let_def all_cells_iff)
      then have "\<forall>p\<in>set (empties b). g p \<le> k"
        using step True by (simp add: placed_True)
      with v True ne show ?thesis by simp
    next
      case nm: False
      from Suc.prems(1) nt nm obtain p where p: "p \<in> set (empties b)"
        and "at_most n symbol (set_cell b (fst p) (snd p) (opponent symbol)) (depth + 1) True k"
        by (auto simp: Let_def some_cell_iff)
      then have "g p \<le> k" using step[OF p] nm by (simp add: placed_False)
      moreover have "v \<le> g p" using v nm p by simp
      ultimately show ?thesis by simp
    qed
  qed
qed

lemma at_least_sound:
  assumes "symbol \<noteq> '' ''"
  shows "at_least n symbol b depth is_max k \<Longrightarrow> is_grid b \<Longrightarrow> length (empties b) < fuel \<Longrightarrow>
         minimax fuel symbol b depth is_max = Some (b1, Fin v) \<Longrightarrow> k \<le> v"
proof (induction n arbitrary: fuel b depth is_max b1 v)
  case 0
  then show ?case by simp
next
  case (Suc n)
  from Suc.prems(3) obtain m where m: "fuel = Suc m" by (cases fuel) auto
  show ?case
  proof (cases "check_winner b = Some symbol \<or> truthy (check_winner b) \<or> is_full b")
    case True
    with Suc.prems(1,4) show ?thesis unfolding m by (auto simp: Let_def split: if_splits)
  next
    case False
    then have nt: "check_winner b \<noteq> Some symbol" "\<not> truthy (check_winner b)" "\<not> is_full b"
      by auto
    have ne: "empties b \<noteq> []" using nt(3) Suc.prems(2) by (simp add: is_full_empties)
    from Suc.prems(3) m have le: "length (empties b) \<le> m" by simp
    obtain g where g: "\<And>p. p \<in> set (empties b) \<Longrightarrow>
       minimax m symbol (set_cell b (fst p) (snd p) (placed symbol is_max)) (depth + 1) (\<not> is_max)
         = Some (set_cell b (fst p) (snd p) (placed symbol is_max), Fin (g p))"
      using minimax_children[OF assms Suc.prems(2) le] by blast
    have "minimax (Suc m) symbol b depth is_max =
        Some (b, Fin (if is_max then Max (g ` set (empties b)) else Min (g ` set (empties b))))"
      by (rule node_step[OF nt ne g])
    with Suc.prems(4)[unfolded m] have "Some (b1, Fin v) =
        Some (b, Fin (if is_max then Max (g ` set (empties b)) else Min (g ` set (empties b))))"
      by (rule trans[OF sym])
    then have v: "v = (if is_max then Max (g ` set (empties b)) else Min (g ` set (empties b)))"
      by simp
    have step: "k \<le> g p"
      if p: "p \<in> set (empties b)"
        and a: "at_least n symbol (set_cell b (fst p) (snd p) (placed symbol is_max)) (depth + 1)
                  (\<not> is_max) k" for p
    proof -
      note cm = child_measure[OF Suc.prems(2) p placed_not_empty[OF assms, of is_max]]
      have "length (empties (set_cell b (fst p) (snd p) (placed symbol is_max))) < m"
        using cm(2) le by simp
      from Suc.IH[OF a cm(1) this g[OF p]] show ?thesis .
    qed
    show ?thesis
    proof (cases is_max)
      case True
      from Suc.prems(1) nt True obtain p where p: "p \<in> set (empties b)"
        and "at_least n symbol (set_cell b (fst p) (snd p) symbol) (depth + 1) False k"
        by (auto simp: Let_def some_cell_iff)
      then have "k \<le> g p" using step[OF p] True by (simp add: placed_True)
      moreover have "g p \<le> v" using v True p by simp
      ultimately show ?thesis by simp
    next
      case nm: False
      from Suc.prems(1) nt nm have
        "\<forall>p\<in>set (empties b).
           at_least n symbol (set_cell b (fst p) (snd p) (opponent symbol)) (depth + 1) True k"
        by (simp add: Let_def all_cells_iff)
      then have "\<forall>p\<in>set (empties b). k \<le> g p"
        using step nm by (simp add: placed_False)
      with v nm ne show ?thesis by simp
    qed
  qed
qed

lemma first_best_cert:
  "\<forall>q\<in>set xs. f q < f p \<Longrightarrow> \<forall>q\<in>set ys. f q \<le> f p \<Longrightarrow> best_score < f p \<Longrightarrow>
   first_best f (xs @ p # ys) best_score best_move = Some p"
proof (induction xs arbitrary: best_score best_move)
  case Nil
  have "first_best f ys (f p) (Some p) = Some p"
    by (rule first_best_keep) (use Nil.prems(2) in \<open>auto simp: not_less\<close>)
  with Nil.prems(3) show ?case by simp
next
  case (Cons x xs)
  then show ?case by simp
qed

section \<open>The moves of the game between the two searches\<close>

lemma get_move_by_bounds:
  assumes "is_grid b" "symbol \<noteq> '' ''" "9 \<le> fuel"
    and es: "empties b = xs @ p # ys"
    and lo: "at_least n symbol (set_cell b (fst p) (snd p) symbol) 0 False k"
    and ux: "all_cells (\<lambda>q. at_most n symbol (set_cell b (fst q) (snd q) symbol) 0 False (k - 1)) xs"
    and uy: "all_cells (\<lambda>q. at_most n symbol (set_cell b (fst q) (snd q) symbol) 0 False k) ys"
  shows "get_move fuel symbol b = Some (b, Some p)"
proof -
  from es have pm: "p \<in> set (empties b)" by simp
  obtain f where f: "\<And>q. q \<in> set (empties b) \<Longrightarrow>
       minimax fuel symbol (set_cell b (fst q) (snd q) symbol) 0 False
         = Some (set_cell b (fst q) (snd q) symbol, Fin (f q))"
    and gm: "get_move fuel symbol b = Some (b, first_best (\<lambda>q. Fin (f q)) (empties b) NegInf None)"
    using get_move_result[OF assms(2,1) fuel_enough[OF assms(3)]] by blast
  have small: "length (empties (set_cell b (fst q) (snd q) symbol)) < fuel"
    and grid: "is_grid (set_cell b (fst q) (snd q) symbol)" if "q \<in> set (empties b)" for q
    using child_measure[OF assms(1) that assms(2)] fuel_enough[OF assms(3), of b] by simp_all
  have "k \<le> f p"
    using at_least_sound[OF assms(2) lo grid[OF pm] small[OF pm] f[OF pm]] .
  moreover have "f q \<le> k - 1" if "q \<in> set xs" for q
  proof -
    from that es have q: "q \<in> set (empties b)" by simp
    from ux that have "at_most n symbol (set_cell b (fst q) (snd q) symbol) 0 False (k - 1)"
      by (simp add: all_cells_iff)
    from at_most_sound[OF assms(2) this grid[OF q] small[OF q] f[OF q]] show ?thesis .
  qed
  moreover have "f q \<le> k" if "q \<in> set ys" for q
  proof -
    from that es have q: "q \<in> set (empties b)" by simp
    from uy that have "at_most n symbol (set_cell b (fst q) (snd q) symbol) 0 False k"
      by (simp add: all_cells_iff)
    from at_most_sound[OF assms(2) this grid[OF q] small[OF q] f[OF q]] show ?thesis .
  qed
  ultimately have "\<forall>q\<in>set xs. Fin (f q) < Fin (f p)" "\<forall>q\<in>set ys. Fin (f q) \<le> Fin (f p)"
    unfolding Fin_less Fin_le by fastforce+
  then have "first_best (\<lambda>q. Fin (f q)) (xs @ p # ys) NegInf None = Some p"
    by (rule first_best_cert) (rule NegInf_less_Fin)
  with gm es show ?thesis by simp
qed

lemma empties_init: "empties init_board = [] @ (0, 0) # [(0, 1), (0, 2), (1, 0), (1, 1), (1, 2), (2, 0), (2, 1), (2, 2)]"
  by (simp add: empties_def cells_eq cell_def init_board_def)

lemma first_lower: "at_least 9 ''X'' (set_cell init_board (fst (0, 0)) (snd (0, 0)) ''X'') 0 False 0"
  by code_simp

lemma first_upper_01:
  "all_cells (\<lambda>q. at_most 9 ''X'' (set_cell init_board (fst q) (snd q) ''X'') 0 False 0) [(0, 1)]"
  by code_simp

lemma first_upper_02:
  "all_cells (\<lambda>q. at_most 9 ''X'' (set_cell init_board (fst q) (snd q) ''X'') 0 False 0) [(0, 2)]"
  by code_simp

lemma first_upper_10:
  "all_cells (\<lambda>q. at_most 9 ''X'' (set_cell init_board (fst q) (snd q) ''X'') 0 False 0) [(1, 0)]"
  by code_simp

lemma first_upper_11:
  "all_cells (\<lambda>q. at_most 9 ''X'' (set_cell init_board (fst q) (snd q) ''X'') 0 False 0) [(1, 1)]"
  by code_simp

lemma first_upper_12:
  "all_cells (\<lambda>q. at_most 9 ''X'' (set_cell init_board (fst q) (snd q) ''X'') 0 False 0) [(1, 2)]"
  by code_simp

lemma first_upper_20:
  "all_cells (\<lambda>q. at_most 9 ''X'' (set_cell init_board (fst q) (snd q) ''X'') 0 False 0) [(2, 0)]"
  by code_simp

lemma first_upper_21:
  "all_cells (\<lambda>q. at_most 9 ''X'' (set_cell init_board (fst q) (snd q) ''X'') 0 False 0) [(2, 1)]"
  by code_simp

lemma first_upper_22:
  "all_cells (\<lambda>q. at_most 9 ''X'' (set_cell init_board (fst q) (snd q) ''X'') 0 False 0) [(2, 2)]"
  by code_simp

lemma get_move_init:
  assumes "9 \<le> fuel"
  shows "get_move fuel ''X'' init_board = Some (init_board, Some (0, 0))"
proof (rule get_move_by_bounds[OF is_grid_init _ assms empties_init first_lower])
  show "''X'' \<noteq> '' ''" by simp
  show "all_cells (\<lambda>q. at_most 9 ''X'' (set_cell init_board (fst q) (snd q) ''X'') 0 False (0 - 1)) []"
    by simp
  show "all_cells (\<lambda>q. at_most 9 ''X'' (set_cell init_board (fst q) (snd q) ''X'') 0 False 0)
     [(0, 1), (0, 2), (1, 0), (1, 1), (1, 2), (2, 0), (2, 1), (2, 2)]"
    using first_upper_01 first_upper_02 first_upper_10 first_upper_11
        first_upper_12 first_upper_20 first_upper_21 first_upper_22
    by (simp add: all_cells_iff)
qed

lemma is_grid_game:
  "is_grid game_1" "is_grid game_2" "is_grid game_3" "is_grid game_4" "is_grid game_5"
  "is_grid game_6" "is_grid game_7" "is_grid game_8" "is_grid game_9"
  by (simp_all add: is_grid_def game_1_def game_2_def game_3_def game_4_def game_5_def
      game_6_def game_7_def game_8_def game_9_def)

lemma placed_init_board: "make_move init_board (int 0) (int 0) ''X'' = Inr (game_1, True)"
  by code_simp

lemma outcome_game_1: "is_game_over game_1 = (False, None)"
  by code_simp

lemma empties_game_1: "empties game_1 = [(0, 1), (0, 2), (1, 0)] @ (1, 1) # [(1, 2), (2, 0), (2, 1), (2, 2)]"
  by (simp add: empties_def cells_eq cell_def game_1_def)

lemma lower_game_1: "at_least 9 ''O'' (set_cell game_1 (fst (1, 1)) (snd (1, 1)) ''O'') 0 False 0"
  by code_simp

lemma upper_game_1_01:
  "all_cells (\<lambda>q. at_most 9 ''O'' (set_cell game_1 (fst q) (snd q) ''O'') 0 False (0 - 1)) [(0, 1)]"
  by code_simp

lemma upper_game_1_02:
  "all_cells (\<lambda>q. at_most 9 ''O'' (set_cell game_1 (fst q) (snd q) ''O'') 0 False (0 - 1)) [(0, 2)]"
  by code_simp

lemma upper_game_1_10:
  "all_cells (\<lambda>q. at_most 9 ''O'' (set_cell game_1 (fst q) (snd q) ''O'') 0 False (0 - 1)) [(1, 0)]"
  by code_simp

lemma upper_game_1_12:
  "all_cells (\<lambda>q. at_most 9 ''O'' (set_cell game_1 (fst q) (snd q) ''O'') 0 False 0) [(1, 2)]"
  by code_simp

lemma upper_game_1_20:
  "all_cells (\<lambda>q. at_most 9 ''O'' (set_cell game_1 (fst q) (snd q) ''O'') 0 False 0) [(2, 0)]"
  by code_simp

lemma upper_game_1_21:
  "all_cells (\<lambda>q. at_most 9 ''O'' (set_cell game_1 (fst q) (snd q) ''O'') 0 False 0) [(2, 1)]"
  by code_simp

lemma upper_game_1_22:
  "all_cells (\<lambda>q. at_most 9 ''O'' (set_cell game_1 (fst q) (snd q) ''O'') 0 False 0) [(2, 2)]"
  by code_simp

lemma get_move_game_1:
  assumes "9 \<le> fuel"
  shows "get_move fuel ''O'' game_1 = Some (game_1, Some (1, 1))"
proof (rule get_move_by_bounds[OF is_grid_game(1) _ assms empties_game_1 lower_game_1])
  show "''O'' \<noteq> '' ''" by simp
  show "all_cells (\<lambda>q. at_most 9 ''O'' (set_cell game_1 (fst q) (snd q) ''O'') 0 False (0 - 1)) [(0, 1), (0, 2), (1, 0)]"
    using upper_game_1_01 upper_game_1_02 upper_game_1_10
    by (simp add: all_cells_iff)
  show "all_cells (\<lambda>q. at_most 9 ''O'' (set_cell game_1 (fst q) (snd q) ''O'') 0 False 0) [(1, 2), (2, 0), (2, 1), (2, 2)]"
    using upper_game_1_12 upper_game_1_20 upper_game_1_21 upper_game_1_22
    by (simp add: all_cells_iff)
qed

lemma placed_game_1: "make_move game_1 (int 1) (int 1) ''O'' = Inr (game_2, True)"
  by code_simp

lemma outcome_game_2: "is_game_over game_2 = (False, None)"
  by code_simp

lemma empties_game_2: "empties game_2 = [] @ (0, 1) # [(0, 2), (1, 0), (1, 2), (2, 0), (2, 1), (2, 2)]"
  by (simp add: empties_def cells_eq cell_def game_2_def)

lemma lower_game_2: "at_least 9 ''X'' (set_cell game_2 (fst (0, 1)) (snd (0, 1)) ''X'') 0 False 0"
  by code_simp

lemma upper_game_2_02:
  "all_cells (\<lambda>q. at_most 9 ''X'' (set_cell game_2 (fst q) (snd q) ''X'') 0 False 0) [(0, 2)]"
  by code_simp

lemma upper_game_2_10:
  "all_cells (\<lambda>q. at_most 9 ''X'' (set_cell game_2 (fst q) (snd q) ''X'') 0 False 0) [(1, 0)]"
  by code_simp

lemma upper_game_2_12:
  "all_cells (\<lambda>q. at_most 9 ''X'' (set_cell game_2 (fst q) (snd q) ''X'') 0 False 0) [(1, 2)]"
  by code_simp

lemma upper_game_2_20:
  "all_cells (\<lambda>q. at_most 9 ''X'' (set_cell game_2 (fst q) (snd q) ''X'') 0 False 0) [(2, 0)]"
  by code_simp

lemma upper_game_2_21:
  "all_cells (\<lambda>q. at_most 9 ''X'' (set_cell game_2 (fst q) (snd q) ''X'') 0 False 0) [(2, 1)]"
  by code_simp

lemma upper_game_2_22:
  "all_cells (\<lambda>q. at_most 9 ''X'' (set_cell game_2 (fst q) (snd q) ''X'') 0 False 0) [(2, 2)]"
  by code_simp

lemma get_move_game_2:
  assumes "9 \<le> fuel"
  shows "get_move fuel ''X'' game_2 = Some (game_2, Some (0, 1))"
proof (rule get_move_by_bounds[OF is_grid_game(2) _ assms empties_game_2 lower_game_2])
  show "''X'' \<noteq> '' ''" by simp
  show "all_cells (\<lambda>q. at_most 9 ''X'' (set_cell game_2 (fst q) (snd q) ''X'') 0 False (0 - 1)) []"
    by simp
  show "all_cells (\<lambda>q. at_most 9 ''X'' (set_cell game_2 (fst q) (snd q) ''X'') 0 False 0) [(0, 2), (1, 0), (1, 2), (2, 0), (2, 1), (2, 2)]"
    using upper_game_2_02 upper_game_2_10 upper_game_2_12 upper_game_2_20 upper_game_2_21 upper_game_2_22
    by (simp add: all_cells_iff)
qed

lemma placed_game_2: "make_move game_2 (int 0) (int 1) ''X'' = Inr (game_3, True)"
  by code_simp

lemma outcome_game_3: "is_game_over game_3 = (False, None)"
  by code_simp

lemma search_game_3: "get_move 10 ''O'' game_3 = Some (game_3, Some (0, 2))"
  by code_simp

lemma get_move_game_3:
  assumes "9 \<le> fuel"
  shows "get_move fuel ''O'' game_3 = Some (game_3, Some (0, 2))"
proof -
  have "get_move fuel ''O'' game_3 = get_move 10 ''O'' game_3"
    by (rule get_move_fuel_indep[OF _ is_grid_game(3) fuel_enough[OF assms] fuel_enough]) simp_all
  then show ?thesis by (simp add: search_game_3)
qed

lemma placed_game_3: "make_move game_3 (int 0) (int 2) ''O'' = Inr (game_4, True)"
  by code_simp

lemma outcome_game_4: "is_game_over game_4 = (False, None)"
  by code_simp

lemma search_game_4: "get_move 10 ''X'' game_4 = Some (game_4, Some (2, 0))"
  by code_simp

lemma get_move_game_4:
  assumes "9 \<le> fuel"
  shows "get_move fuel ''X'' game_4 = Some (game_4, Some (2, 0))"
proof -
  have "get_move fuel ''X'' game_4 = get_move 10 ''X'' game_4"
    by (rule get_move_fuel_indep[OF _ is_grid_game(4) fuel_enough[OF assms] fuel_enough]) simp_all
  then show ?thesis by (simp add: search_game_4)
qed

lemma placed_game_4: "make_move game_4 (int 2) (int 0) ''X'' = Inr (game_5, True)"
  by code_simp

lemma outcome_game_5: "is_game_over game_5 = (False, None)"
  by code_simp

lemma search_game_5: "get_move 10 ''O'' game_5 = Some (game_5, Some (1, 0))"
  by code_simp

lemma get_move_game_5:
  assumes "9 \<le> fuel"
  shows "get_move fuel ''O'' game_5 = Some (game_5, Some (1, 0))"
proof -
  have "get_move fuel ''O'' game_5 = get_move 10 ''O'' game_5"
    by (rule get_move_fuel_indep[OF _ is_grid_game(5) fuel_enough[OF assms] fuel_enough]) simp_all
  then show ?thesis by (simp add: search_game_5)
qed

lemma placed_game_5: "make_move game_5 (int 1) (int 0) ''O'' = Inr (game_6, True)"
  by code_simp

lemma outcome_game_6: "is_game_over game_6 = (False, None)"
  by code_simp

lemma search_game_6: "get_move 10 ''X'' game_6 = Some (game_6, Some (1, 2))"
  by code_simp

lemma get_move_game_6:
  assumes "9 \<le> fuel"
  shows "get_move fuel ''X'' game_6 = Some (game_6, Some (1, 2))"
proof -
  have "get_move fuel ''X'' game_6 = get_move 10 ''X'' game_6"
    by (rule get_move_fuel_indep[OF _ is_grid_game(6) fuel_enough[OF assms] fuel_enough]) simp_all
  then show ?thesis by (simp add: search_game_6)
qed

lemma placed_game_6: "make_move game_6 (int 1) (int 2) ''X'' = Inr (game_7, True)"
  by code_simp

lemma outcome_game_7: "is_game_over game_7 = (False, None)"
  by code_simp

lemma search_game_7: "get_move 10 ''O'' game_7 = Some (game_7, Some (2, 1))"
  by code_simp

lemma get_move_game_7:
  assumes "9 \<le> fuel"
  shows "get_move fuel ''O'' game_7 = Some (game_7, Some (2, 1))"
proof -
  have "get_move fuel ''O'' game_7 = get_move 10 ''O'' game_7"
    by (rule get_move_fuel_indep[OF _ is_grid_game(7) fuel_enough[OF assms] fuel_enough]) simp_all
  then show ?thesis by (simp add: search_game_7)
qed

lemma placed_game_7: "make_move game_7 (int 2) (int 1) ''O'' = Inr (game_8, True)"
  by code_simp

lemma outcome_game_8: "is_game_over game_8 = (False, None)"
  by code_simp

lemma search_game_8: "get_move 10 ''X'' game_8 = Some (game_8, Some (2, 2))"
  by code_simp

lemma get_move_game_8:
  assumes "9 \<le> fuel"
  shows "get_move fuel ''X'' game_8 = Some (game_8, Some (2, 2))"
proof -
  have "get_move fuel ''X'' game_8 = get_move 10 ''X'' game_8"
    by (rule get_move_fuel_indep[OF _ is_grid_game(8) fuel_enough[OF assms] fuel_enough]) simp_all
  then show ?thesis by (simp add: search_game_8)
qed

lemma placed_game_8: "make_move game_8 (int 2) (int 2) ''X'' = Inr (game_9, True)"
  by code_simp

lemma outcome_game_9: "is_game_over game_9 = (True, Some ''Draw'')"
  by code_simp

lemma play_loop_next:
  assumes "get_move fuel current b = Some (b, Some (r, c))"
    and "make_move b (int r) (int c) current = Inr (b', True)"
    and "is_game_over b' = (False, res)"
  shows "play_loop (Suc turns) fuel current other b = play_loop turns fuel other current b'"
  by (simp add: play_turn_def assms)

lemma play_loop_last:
  assumes "get_move fuel current b = Some (b, Some (r, c))"
    and "make_move b (int r) (int c) current = Inr (b', True)"
    and "is_game_over b' = (True, res)"
  shows "play_loop (Suc turns) fuel current other b = Some (Inr (b', res))"
  by (simp add: play_turn_def assms)

lemma reset_init: "reset init_board = init_board"
  by (simp add: reset_def init_board_def)

lemma nine_turns: "9 \<le> turns \<Longrightarrow>
  \<exists>k. turns = Suc (Suc (Suc (Suc (Suc (Suc (Suc (Suc (Suc k))))))))"
  by (rule exI[of _ "turns - 9"]) simp

lemma self_play:
  assumes g0: "get_move fuel ''X'' init_board = Some (init_board, Some (0, 0))"
    and "9 \<le> turns" "9 \<le> fuel"
  shows "play_game turns fuel ''X'' ''O'' init_board = Some (Inr (game_9, Some ''Draw''))"
proof -
  from nine_turns[OF assms(2)] obtain k
    where k: "turns = Suc (Suc (Suc (Suc (Suc (Suc (Suc (Suc (Suc k))))))))" by blast
  note f = assms(3)
  show ?thesis
    unfolding play_game_def reset_init k
    unfolding play_loop_next[OF g0 placed_init_board outcome_game_1]
      play_loop_next[OF get_move_game_1[OF f] placed_game_1 outcome_game_2]
      play_loop_next[OF get_move_game_2[OF f] placed_game_2 outcome_game_3]
      play_loop_next[OF get_move_game_3[OF f] placed_game_3 outcome_game_4]
      play_loop_next[OF get_move_game_4[OF f] placed_game_4 outcome_game_5]
      play_loop_next[OF get_move_game_5[OF f] placed_game_5 outcome_game_6]
      play_loop_next[OF get_move_game_6[OF f] placed_game_6 outcome_game_7]
      play_loop_next[OF get_move_game_7[OF f] placed_game_7 outcome_game_8]
    by (rule play_loop_last[OF get_move_game_8[OF f] placed_game_8 outcome_game_9])
qed

text \<open>
  Claim C2.  Let both players of \<^verbatim>\<open>play_game\<close> be AI players, X moving first, on a fresh
  board.  Whenever nine turns are allowed and the fuel of each search covers the nine cells,
  the game ends, no error is raised, and the result handed to the statistics is
  \<^verbatim>\<open>'Draw'\<close>, not \<^verbatim>\<open>'X'\<close> or \<^verbatim>\<open>'O'\<close>.  The final board is XXO/OOX/XOX, reached by the moves
  (0,0), (1,1), (0,1), (0,2), (2,0), (1,0), (1,2), (2,1), (2,2).
\<close>

theorem self_play_draw:
  assumes "9 \<le> turns" "9 \<le> fuel"
  shows "play_game turns fuel ''X'' ''O'' init_board = Some (Inr (game_9, Some ''Draw''))"
  using get_move_init[OF assms(2)] assms by (rule self_play)

theorem self_play_draw_witness:
  "(9::nat) \<le> 9 \<and> play_game 9 9 ''X'' ''O'' init_board = Some (Inr (game_9, Some ''Draw''))"
  using self_play_draw[of 9 9] by simp


end
